theory Spec2Isabelle
  imports Complex_Main "HOL-Library.Word" "HOL-Library.Log_Nat"
begin

text \<open>
  A model of \<open>progressbar.h\<close>: the layout of the line, the fill of the bar, the ETA and
  the bytes that a draw writes. The platform is the one the source is written for (a
  Unix terminal): \<open>int\<close> has 32 bits, \<open>unsigned long\<close> and \<open>size_t\<close> have the same width
  \<open>'w\<close>, \<open>time_t\<close> counts whole seconds, and \<open>double\<close> is IEEE 754 binary64 with rounding
  to nearest.
\<close>

section \<open>Constants of progressbar.h\<close>

text \<open>The enum constants of the source.\<close>

definition DEFAULT_SCREEN_WIDTH :: int where
  "DEFAULT_SCREEN_WIDTH = 80"

definition MINIMUM_BAR_WIDTH :: int where
  "MINIMUM_BAR_WIDTH = 10"

definition ETA_FORMAT_LENGTH :: int where
  "ETA_FORMAT_LENGTH = 13"

definition WHITESPACE_LENGTH :: int where
  "WHITESPACE_LENGTH = 2"

definition BAR_BORDER_WIDTH :: int where
  "BAR_BORDER_WIDTH = 2"

section \<open>Layout\<close>

text \<open>\<^verbatim>\<open>static int progressbar_max(int x, int y) { return x > y ? x : y; }\<close>\<close>

definition progressbar_max :: "int \<Rightarrow> int \<Rightarrow> int" where
  "progressbar_max x y = (if x > y then x else y)"

subsection \<open>The layout in 32-bit arithmetic\<close>

text \<open>
  The layout functions add and subtract in \<open>int\<close>. A C \<open>int\<close> is an integer from
  \<open>-2^31\<close> to \<open>2^31 - 1\<close>; a sum or difference outside this range overflows (undefined
  in C), and two's-complement hardware delivers it modulo \<open>2^32\<close>, which is what
  \<open>int_wrap\<close> writes out.
\<close>

definition int_wrap :: "int \<Rightarrow> int" where
  "int_wrap x = (x + 2147483648) mod 4294967296 - 2147483648"

definition int_add :: "int \<Rightarrow> int \<Rightarrow> int" where
  "int_add a b = int_wrap (a + b)"

definition int_sub :: "int \<Rightarrow> int \<Rightarrow> int" where
  "int_sub a b = int_wrap (a - b)"

text \<open>
  \<^verbatim>\<open>return progressbar_max(MINIMUM_BAR_WIDTH,
       screen_width - label_length - ETA_FORMAT_LENGTH - WHITESPACE_LENGTH);\<close>
\<close>

definition progressbar_bar_width_int32 :: "int \<Rightarrow> int \<Rightarrow> int" where
  "progressbar_bar_width_int32 screen_width label_length =
     progressbar_max MINIMUM_BAR_WIDTH
       (int_sub (int_sub (int_sub screen_width label_length) ETA_FORMAT_LENGTH)
          WHITESPACE_LENGTH)"

text \<open>
  \<^verbatim>\<open>int eta_width = ETA_FORMAT_LENGTH;
  if (label_length + 1 + bar_width + 1 + ETA_FORMAT_LENGTH > screen_width)
    return progressbar_max(0, screen_width - bar_width - eta_width - WHITESPACE_LENGTH);
  else return label_length;\<close>
\<close>

definition progressbar_label_width_int32 :: "int \<Rightarrow> int \<Rightarrow> int \<Rightarrow> int" where
  "progressbar_label_width_int32 screen_width label_length bar_width =
     (let eta_width = ETA_FORMAT_LENGTH in
      if int_add (int_add (int_add (int_add label_length 1) bar_width) 1) ETA_FORMAT_LENGTH
           > screen_width
      then progressbar_max 0
             (int_sub (int_sub (int_sub screen_width bar_width) eta_width) WHITESPACE_LENGTH)
      else label_length)"

subsection \<open>The layout within a draw\<close>

text \<open>
  A draw calls the layout with a terminal width from 1 to 65535. For a label shorter
  than \<open>2^31 - 2^17\<close> bytes no sum or difference leaves the \<open>int\<close> range, and the two
  functions compute the exact results below (lemma \<open>layout_int32_in_draw\<close>); the model
  of the draw uses them in this form.
\<close>

definition progressbar_bar_width :: "int \<Rightarrow> int \<Rightarrow> int" where
  "progressbar_bar_width screen_width label_length =
     progressbar_max MINIMUM_BAR_WIDTH
       (screen_width - label_length - ETA_FORMAT_LENGTH - WHITESPACE_LENGTH)"

text \<open>
  If the bar is too wide to fit on the screen the label is sacrificed, otherwise the
  whole label is kept.
\<close>

definition progressbar_label_width :: "int \<Rightarrow> int \<Rightarrow> int \<Rightarrow> int" where
  "progressbar_label_width screen_width label_length bar_width =
     (let eta_width = ETA_FORMAT_LENGTH in
      if label_length + 1 + bar_width + 1 + ETA_FORMAT_LENGTH > screen_width
      then progressbar_max 0 (screen_width - bar_width - eta_width - WHITESPACE_LENGTH)
      else label_length)"

section \<open>Time components\<close>

text \<open>
  C's \<open>/\<close> on \<open>int\<close> truncates towards zero, whereas \<open>div\<close> on HOL integers rounds
  towards minus infinity; the two agree on non-negative operands.
\<close>

definition c_div :: "int \<Rightarrow> int \<Rightarrow> int" where
  "c_div a b = sgn a * sgn b * (\<bar>a\<bar> div \<bar>b\<bar>)"

record progressbar_time_components =
  hours :: int
  minutes :: int
  seconds :: int

text \<open>
  \<^verbatim>\<open>int hours = seconds / 3600;  seconds -= hours * 3600;
  int minutes = seconds / 60;  seconds -= minutes * 60;\<close>
\<close>

definition progressbar_calc_time_components :: "int \<Rightarrow> progressbar_time_components" where
  "progressbar_calc_time_components seconds0 =
     (let hours = c_div seconds0 3600;
          seconds1 = seconds0 - hours * 3600;
          minutes = c_div seconds1 60;
          seconds2 = seconds1 - minutes * 60
      in \<lparr> hours = hours, minutes = minutes, seconds = seconds2 \<rparr>)"

section \<open>The progress bar state\<close>

text \<open>
  \<open>unsigned long\<close> is a word of the platform's width \<open>'w\<close> (64 on LP64, 32 on ILP32):
  \<open>+\<close> on it wraps modulo \<open>2 ^ LENGTH('w)\<close>. \<open>time_t\<close> counts whole seconds. The label
  is the C string without its terminating NUL. The fields \<open>max\<close> and \<open>value\<close> of the
  source are \<open>bar_max\<close> and \<open>bar_value\<close> here.
\<close>

record (overloaded) 'w progressbar =
  bar_max :: "'w word"
  bar_value :: "'w word"
  start :: int
  label :: string
  format_begin :: char
  format_fill :: char
  format_end :: char

text \<open>\<^verbatim>\<open>int progressbar_completed = (bar->value >= bar->max);\<close>\<close>

definition progressbar_completed :: "'w::len progressbar \<Rightarrow> bool" where
  "progressbar_completed bar = (bar_value bar \<ge> bar_max bar)"

section \<open>Double-precision arithmetic\<close>

text \<open>
  The source computes the fill ratio and the remaining time in \<open>double\<close>. A finite
  double is modelled by the rational it denotes; every operation computes the exact
  result and rounds it to the nearest double, ties to even (IEEE 754 binary64, each
  expression evaluated in its own type). The exponent range is not modelled: for an
  \<open>unsigned long\<close> of at most 64 bits all quantities of the program lie between
  \<open>2^-64\<close> and \<open>2^128\<close> in magnitude, far from overflow and from the subnormal range.
  A division by zero has no finite result and is an error of the model.
\<close>

datatype c_error = Division_By_Zero | Undefined_Conversion

definition c_bind :: "c_error + 'a \<Rightarrow> ('a \<Rightarrow> c_error + 'b) \<Rightarrow> c_error + 'b" where
  "c_bind r f = (case r of Inl e \<Rightarrow> Inl e | Inr v \<Rightarrow> f v)"

text \<open>Rounding to the nearest integer, a tie to the even neighbour.\<close>

definition round_even :: "rat \<Rightarrow> int" where
  "round_even y =
     (let f = \<lfloor>y\<rfloor>; r = y - of_int f in
      if r < 1 / 2 then f
      else if 1 / 2 < r then f + 1
      else if even f then f else f + 1)"

text \<open>The binary exponent \<open>e\<close> of a positive rational: \<open>2^e \<le> x < 2^(e+1)\<close>.\<close>

definition ilog2 :: "rat \<Rightarrow> int" where
  "ilog2 x =
     (let (p, q) = quotient_of x; d = bitlen p - bitlen q in
      if 2 powi d \<le> x then d else d - 1)"

text \<open>Rounding to 53 significant bits: the unit in the last place is \<open>2^(e-52)\<close>.\<close>

definition double_round :: "rat \<Rightarrow> rat" where
  "double_round x =
     (if x = 0 then 0
      else let u = 2 powi (ilog2 \<bar>x\<bar> - 52) in of_int (round_even (x / u)) * u)"

definition double_of_int :: "int \<Rightarrow> rat" where
  "double_of_int i = double_round (of_int i)"

definition double_of_ulong :: "'w::len word \<Rightarrow> rat" where
  "double_of_ulong v = double_round (of_int (uint v))"

definition double_mul :: "rat \<Rightarrow> rat \<Rightarrow> rat" where
  "double_mul a b = double_round (a * b)"

definition double_div :: "rat \<Rightarrow> rat \<Rightarrow> c_error + rat" where
  "double_div a b = (if b = 0 then Inl Division_By_Zero else Inr (double_round (a / b)))"

text \<open>
  Converting a double to \<open>int\<close> discards the fractional part; C leaves the conversion
  undefined when the integral part is not an \<open>int\<close> (32 bits).
\<close>

definition INT_MAX :: int where
  "INT_MAX = 2147483647"

definition INT_MIN :: int where
  "INT_MIN = - 2147483648"

definition c_trunc :: "rat \<Rightarrow> int" where
  "c_trunc x = (if 0 \<le> x then \<lfloor>x\<rfloor> else \<lceil>x\<rceil>)"

definition int_of_double :: "rat \<Rightarrow> c_error + int" where
  "int_of_double x =
     (let t = c_trunc x in
      if INT_MIN \<le> t \<and> t \<le> INT_MAX then Inr t else Inl Undefined_Conversion)"

text \<open>\<open>difftime\<close> of the C library: the difference of two times in seconds, as a double.\<close>

definition difftime :: "int \<Rightarrow> int \<Rightarrow> rat" where
  "difftime time1 time0 = double_round (of_int (time1 - time0))"

section \<open>The environment of a draw\<close>

text \<open>
  A draw reads the terminal and the clock. \<open>ioctl_ws_col\<close> is the column count that
  \<open>ioctl(TIOCGWINSZ)\<close> reports (an \<open>unsigned short\<close>), \<open>None\<close> when the call fails;
  \<open>time_now\<close> is what \<open>time(NULL)\<close> returns.
\<close>

record env =
  ioctl_ws_col :: "16 word option"
  time_now :: int

definition get_screen_width :: "env \<Rightarrow> int" where
  "get_screen_width e =
     (case ioctl_ws_col e of
        None \<Rightarrow> DEFAULT_SCREEN_WIDTH
      | Some ws_col \<Rightarrow> if ws_col = 0 then DEFAULT_SCREEN_WIDTH else uint ws_col)"

text \<open>
  \<^verbatim>\<open>double offset = difftime(time(NULL), bar->start);
  if (bar->value > 0 && offset > 0)
    return (offset / (double) bar->value) * (bar->max - bar->value);
  else return 0;\<close>
\<close>

definition progressbar_remaining_seconds :: "env \<Rightarrow> 'w::len progressbar \<Rightarrow> c_error + int" where
  "progressbar_remaining_seconds e bar =
     (let offset = difftime (time_now e) (start bar) in
      if bar_value bar > 0 \<and> offset > 0
      then c_bind (double_div offset (double_of_ulong (bar_value bar)))
             (\<lambda>q. int_of_double (double_mul q (double_of_ulong (bar_max bar - bar_value bar))))
      else Inr 0)"

section \<open>Output streams\<close>

record stdio =
  stdout_buf :: string
  stderr_buf :: string

definition fputc_stderr :: "char \<Rightarrow> stdio \<Rightarrow> stdio" where
  "fputc_stderr c io = io\<lparr>stderr_buf := stderr_buf io @ [c]\<rparr>"

text \<open>\<open>fwrite(ptr, 1, n, stderr)\<close>: the first \<open>n\<close> bytes of the buffer.\<close>

definition fwrite_stderr :: "string \<Rightarrow> nat \<Rightarrow> stdio \<Rightarrow> stdio" where
  "fwrite_stderr buf n io = io\<lparr>stderr_buf := stderr_buf io @ take n buf\<rparr>"

text \<open>The loop \<^verbatim>\<open>for (i = 0; i < times; ++i) fputc(ch, file);\<close> with \<open>times\<close> iterations left.\<close>

primrec write_char_loop :: "nat \<Rightarrow> char \<Rightarrow> stdio \<Rightarrow> stdio" where
  "write_char_loop 0 ch io = io"
| "write_char_loop (Suc n) ch io = write_char_loop n ch (fputc_stderr ch io)"

text \<open>
  The count \<open>times\<close> is a \<open>size_t\<close>, as wide as \<open>unsigned long\<close>: an \<open>int\<close> argument is converted
  modulo \<open>2 ^ LENGTH('w)\<close> by the caller.
\<close>

definition progressbar_write_char :: "char \<Rightarrow> 'w::len word \<Rightarrow> stdio \<Rightarrow> stdio" where
  "progressbar_write_char ch times_n io = write_char_loop (unat times_n) ch io"

subsection \<open>The ETA format\<close>

definition digit_char :: "nat \<Rightarrow> char" where
  "digit_char d = char_of (48 + d)"

function digits_of_int :: "int \<Rightarrow> string" where
  "digits_of_int n =
     (if n < 10 then [digit_char (nat n)] else digits_of_int (n div 10) @ [digit_char (nat (n mod 10))])"
  by pat_completeness auto
termination
  by (relation "measure nat") auto

text \<open>\<open>%2d\<close>: at least two characters, padded with spaces on the left.\<close>

definition printf_2d :: "int \<Rightarrow> string" where
  "printf_2d i =
     (let s = (if i < 0 then ''-'' else []) @ digits_of_int \<bar>i\<bar>
      in replicate (2 - length s) CHR '' '' @ s)"

text \<open>\<open>%02d\<close>: at least two characters, padded with zeros after the sign.\<close>

definition printf_02d :: "int \<Rightarrow> string" where
  "printf_02d i =
     (let sign = (if i < 0 then ''-'' else []); s = digits_of_int \<bar>i\<bar>
      in sign @ replicate (2 - length sign - length s) CHR ''0'' @ s)"

text \<open>\<^verbatim>\<open>static const char *const ETA_FORMAT = "ETA:%2dh%02dm%02ds";\<close>\<close>

definition ETA_FORMAT :: "int \<Rightarrow> int \<Rightarrow> int \<Rightarrow> string" where
  "ETA_FORMAT h m s = ''ETA:'' @ printf_2d h @ ''h'' @ printf_02d m @ ''m'' @ printf_02d s @ ''s''"

definition fprintf_stderr :: "string \<Rightarrow> stdio \<Rightarrow> stdio" where
  "fprintf_stderr formatted io = io\<lparr>stderr_buf := stderr_buf io @ formatted\<rparr>"

text \<open>
  The macro \<^verbatim>\<open>printf_bar(...)\<close> for the caller's own messages: it clears the line and
  returns to column 0 (\<open>ESC [ 2 K CR\<close>) on the standard output, then prints there.
\<close>

definition clear_line_sequence :: string where
  "clear_line_sequence = [CHR 0x1B, CHR ''['', CHR ''2'', CHR ''K'', CHR 0x0D]"

definition printf_bar :: "string \<Rightarrow> stdio \<Rightarrow> stdio" where
  "printf_bar formatted io = io\<lparr>stdout_buf := stdout_buf io @ clear_line_sequence @ formatted\<rparr>"

section \<open>Drawing\<close>

text \<open>
  \<^verbatim>\<open>int bar_piece_current = (progressbar_completed)
                          ? bar_piece_count
                          : bar_piece_count * ((double) bar->value / bar->max);\<close>
  The conditional has type \<open>double\<close>, so both branches are converted back to \<open>int\<close>.
\<close>

definition draw_bar_piece_current :: "int \<Rightarrow> 'w::len progressbar \<Rightarrow> c_error + int" where
  "draw_bar_piece_current bar_piece_count bar =
     (if progressbar_completed bar
      then int_of_double (double_of_int bar_piece_count)
      else c_bind (double_div (double_of_ulong (bar_value bar)) (double_of_ulong (bar_max bar)))
             (\<lambda>ratio. int_of_double (double_mul (double_of_int bar_piece_count) ratio)))"

text \<open>
  \<^verbatim>\<open>progressbar_time_components eta = (progressbar_completed)
      ? progressbar_calc_time_components(difftime(time(NULL), bar->start))
      : progressbar_calc_time_components(progressbar_remaining_seconds(bar));\<close>
\<close>

definition draw_eta :: "env \<Rightarrow> 'w::len progressbar \<Rightarrow> c_error + progressbar_time_components" where
  "draw_eta e bar =
     (if progressbar_completed bar
      then c_bind (int_of_double (difftime (time_now e) (start bar)))
             (\<lambda>s. Inr (progressbar_calc_time_components s))
      else c_bind (progressbar_remaining_seconds e bar)
             (\<lambda>s. Inr (progressbar_calc_time_components s)))"

text \<open>
  The body of \<open>progressbar_draw\<close>. When the label width is 0 the source adds 1 to
  \<open>bar_width\<close>, but \<open>bar_piece_count\<close> has been computed before and \<open>bar_width\<close> is not
  read again, so the assignment changes nothing that is written.
\<close>

definition progressbar_draw :: "env \<Rightarrow> 'w::len progressbar \<Rightarrow> stdio \<Rightarrow> c_error + stdio" where
  "progressbar_draw e bar io =
     (let screen_width = get_screen_width e;
          label_length = int (length (label bar));
          bar_width = progressbar_bar_width screen_width label_length;
          label_width = progressbar_label_width screen_width label_length bar_width;
          bar_piece_count = bar_width - BAR_BORDER_WIDTH
      in c_bind (draw_bar_piece_current bar_piece_count bar) (\<lambda>bar_piece_current.
         c_bind (draw_eta e bar) (\<lambda>eta.
           let io1 = (if label_width = 0 then io
                      else fputc_stderr CHR '' ''
                             (fwrite_stderr (label bar) (nat label_width) io));
               io2 = fputc_stderr (format_begin bar) io1;
               io3 = progressbar_write_char (format_fill bar)
                       (of_int bar_piece_current :: 'w word) io2;
               io4 = progressbar_write_char CHR '' ''
                       (of_int (bar_piece_count - bar_piece_current) :: 'w word) io3;
               io5 = fputc_stderr (format_end bar) io4;
               io6 = fputc_stderr CHR '' '' io5;
               io7 = fprintf_stderr (ETA_FORMAT (hours eta) (minutes eta) (seconds eta)) io6
           in Inr (fputc_stderr (CHR 0x0D) io7))))"

text \<open>\<^verbatim>\<open>bar->value = value;  progressbar_draw(bar);\<close>\<close>

definition progressbar_update ::
  "env \<Rightarrow> 'w::len progressbar \<Rightarrow> 'w word \<Rightarrow> stdio \<Rightarrow> 'w progressbar \<times> (c_error + stdio)" where
  "progressbar_update e bar v io =
     (let bar' = bar\<lparr>bar_value := v\<rparr> in (bar', progressbar_draw e bar' io))"

text \<open>\<^verbatim>\<open>progressbar_update(bar, bar->value+1);\<close>\<close>

definition progressbar_inc ::
  "env \<Rightarrow> 'w::len progressbar \<Rightarrow> stdio \<Rightarrow> 'w progressbar \<times> (c_error + stdio)" where
  "progressbar_inc e bar io = progressbar_update e bar (bar_value bar + 1) io"

section \<open>The line of one draw\<close>

text \<open>
  The label width that a draw computes, and the bytes that it appends to the error
  stream once the filled-piece count and the ETA are known. They summarise
  \<open>progressbar_draw\<close> (lemma \<open>draw_appends_line\<close>) for the statements about its output.
\<close>

definition draw_label_width :: "env \<Rightarrow> 'w::len progressbar \<Rightarrow> int" where
  "draw_label_width e bar =
     progressbar_label_width (get_screen_width e) (int (length (label bar)))
       (progressbar_bar_width (get_screen_width e) (int (length (label bar))))"

definition draw_label_part :: "env \<Rightarrow> 'w::len progressbar \<Rightarrow> string" where
  "draw_label_part e bar =
     (if draw_label_width e bar = 0 then []
      else take (nat (draw_label_width e bar)) (label bar) @ [CHR '' ''])"

definition draw_bar_part ::
  "env \<Rightarrow> 'w::len progressbar \<Rightarrow> int \<Rightarrow> progressbar_time_components \<Rightarrow> string" where
  "draw_bar_part e bar bar_piece_current eta =
     replicate (unat (of_int bar_piece_current :: 'w word)) (format_fill bar)
     @ replicate
         (unat (of_int (progressbar_bar_width (get_screen_width e) (int (length (label bar)))
                          - BAR_BORDER_WIDTH - bar_piece_current) :: 'w word)) CHR '' ''
     @ [format_end bar, CHR '' '']
     @ ETA_FORMAT (hours eta) (minutes eta) (seconds eta)"

definition draw_line ::
  "env \<Rightarrow> 'w::len progressbar \<Rightarrow> int \<Rightarrow> progressbar_time_components \<Rightarrow> string" where
  "draw_line e bar bar_piece_current eta =
     draw_label_part e bar @ [format_begin bar] @ draw_bar_part e bar bar_piece_current eta
     @ [CHR 0x0D]"

section \<open>Relative error of rounded results\<close>

text \<open>
  Rounding a non-negative \<open>x\<close> to a double changes it by a factor between
  \<open>1 - 2^-53\<close> and \<open>1 + 2^-53\<close>, the quotient of which is \<open>rel_hi\<close>. \<open>near k y x\<close> says that
  \<open>y\<close> and \<open>x\<close> differ by a factor of at most \<open>rel_hi ^ k\<close>, as after \<open>k\<close> roundings; the
  predicate only serves to prove the error bounds below.
\<close>

definition rel_hi :: rat where "rel_hi = (2 ^ 53 + 1) / (2 ^ 53 - 1)"

definition near :: "nat \<Rightarrow> rat \<Rightarrow> rat \<Rightarrow> bool" where
  "near k y x = (0 \<le> x \<and> x \<le> y * rel_hi ^ k \<and> y \<le> x * rel_hi ^ k)"

section \<open>Example inputs\<close>

text \<open>
  A bar labelled \<open>Progress\<close> at 3 of 11 steps with the default border \<open>|=|\<close>, started
  at time 0, on an LP64 platform; a terminal whose size cannot be queried (80 columns)
  with the clock at 0; empty output streams.
\<close>

definition example_bar :: "64 progressbar" where
  "example_bar = \<lparr> bar_max = 11, bar_value = 3, start = 0, label = ''Progress'',
       format_begin = CHR ''|'', format_fill = CHR ''='', format_end = CHR ''|'' \<rparr>"

definition example_env :: env where
  "example_env = \<lparr> ioctl_ws_col = None, time_now = 0 \<rparr>"

definition example_io :: stdio where
  "example_io = \<lparr> stdout_buf = [], stderr_buf = [] \<rparr>"

section \<open>Rounding to the nearest integer\<close>

lemma round_even_error: "\<bar>of_int (round_even y) - y\<bar> \<le> 1 / 2"
proof -
  have g: "\<bar>of_int (if y - of_int f < 1 / 2 then f
                       else if 1 / 2 < y - of_int f then f + 1
                       else if even f then f else f + 1) - y\<bar> \<le> 1 / 2"
    if "of_int f \<le> y" "y < of_int f + 1" for f :: int
    using that by (auto simp: abs_if)
  have "of_int \<lfloor>y\<rfloor> \<le> y" "y < of_int \<lfloor>y\<rfloor> + 1"
    by linarith+
  then show ?thesis
    unfolding round_even_def Let_def by (rule g)
qed

lemma round_even_of_int [simp]: "round_even (of_int n) = n"
  by (simp add: round_even_def)

lemma round_even_le_int: "y \<le> of_int n \<Longrightarrow> round_even y \<le> n"
proof -
  assume a: "y \<le> of_int n"
  have f: "of_int \<lfloor>y\<rfloor> \<le> y" by linarith
  show ?thesis
  proof (cases "y = of_int n")
    case True then show ?thesis by simp
  next
    case False
    with a have "y < of_int n" by simp
    then have "\<lfloor>y\<rfloor> < n" by linarith
    then have "\<lfloor>y\<rfloor> + 1 \<le> n" by simp
    then show ?thesis
      unfolding round_even_def Let_def by auto
  qed
qed

lemma round_even_ge_int: "of_int n \<le> y \<Longrightarrow> n \<le> round_even y"
proof -
  assume a: "of_int n \<le> y"
  then have "n \<le> \<lfloor>y\<rfloor>" by linarith
  then show ?thesis
    unfolding round_even_def Let_def by auto
qed

lemma round_even_less_half: "y < of_int n - 1 / 2 \<Longrightarrow> round_even y < n"
proof -
  assume a: "y < of_int n - 1 / 2"
  have e: "\<bar>of_int (round_even y) - y\<bar> \<le> 1 / 2" by (rule round_even_error)
  then have "of_int (round_even y) < (of_int n :: rat)" using a by linarith
  then show ?thesis by simp
qed

lemma round_even_mono: "x \<le> y \<Longrightarrow> round_even x \<le> round_even y"
proof -
  assume a: "x \<le> y"
  show ?thesis
  proof (cases "\<lfloor>x\<rfloor> = \<lfloor>y\<rfloor>")
    case True
    then show ?thesis using a
      unfolding round_even_def Let_def by auto
  next
    case False
    moreover have "\<lfloor>x\<rfloor> \<le> \<lfloor>y\<rfloor>" using a by (rule floor_mono)
    ultimately have "\<lfloor>x\<rfloor> + 1 \<le> \<lfloor>y\<rfloor>" by simp
    then have "of_int (\<lfloor>x\<rfloor> + 1) \<le> y" by linarith
    then have "\<lfloor>x\<rfloor> + 1 \<le> round_even y" by (rule round_even_ge_int)
    moreover have "round_even x \<le> \<lfloor>x\<rfloor> + 1"
      unfolding round_even_def Let_def by auto
    ultimately show ?thesis by linarith
  qed
qed

lemma round_even_minus: "round_even (- y) = - round_even y"
proof (cases "y = of_int \<lfloor>y\<rfloor>")
  case True
  define n where "n = \<lfloor>y\<rfloor>"
  have "y = of_int n" using True by (simp add: n_def)
  then show ?thesis by (simp flip: of_int_minus)
next
  case False
  have lo: "of_int \<lfloor>y\<rfloor> < y" using False of_int_floor_le [of y] by (metis order_less_le)
  have hi: "y < of_int \<lfloor>y\<rfloor> + 1" by linarith
  have fl: "\<lfloor>- y\<rfloor> = - \<lfloor>y\<rfloor> - 1"
    using lo hi by (intro floor_unique) auto
  have g: "(if - y - of_int (- f - 1) < 1 / 2 then - f - 1
            else if 1 / 2 < - y - of_int (- f - 1) then - f - 1 + 1
            else if even (- f - 1) then - f - 1 else - f - 1 + 1)
         = - (if y - of_int f < 1 / 2 then f
              else if 1 / 2 < y - of_int f then f + 1
              else if even f then f else f + 1)"
    if "of_int f < y" "y < of_int f + 1" for f :: int
    using that by (auto simp: field_simps)
  show ?thesis
    unfolding round_even_def Let_def fl using lo hi by (rule g)
qed

section \<open>The binary exponent\<close>

lemma bitlen_powi:
  assumes "0 < n"
  shows "(2::rat) powi (bitlen n - 1) \<le> of_int n" "(of_int n :: rat) < 2 powi (bitlen n)"
proof -
  have b: "2 ^ nat (bitlen n - 1) \<le> n" "n < 2 ^ nat (bitlen n)"
    using bitlen_bounds [OF assms] by auto
  have pos: "1 \<le> bitlen n"
    using assms bitlen_eq_zero_iff [of n] bitlen_nonneg [of n] by linarith
  have "(of_int (2 ^ nat (bitlen n - 1)) :: rat) \<le> of_int n"
    using b(1) by (simp only: of_int_le_iff)
  then show "(2::rat) powi (bitlen n - 1) \<le> of_int n"
    using pos by (simp add: power_int_nonneg_exp)
  have "(of_int n :: rat) < of_int (2 ^ nat (bitlen n))"
    using b(2) by (simp only: of_int_less_iff)
  then show "(of_int n :: rat) < 2 powi (bitlen n)"
    using pos by (simp add: power_int_nonneg_exp)
qed

lemma powi2_pos [simp]: "0 < (2::rat) powi k"
  by (simp add: power_int_def)

lemma ilog2_bounds:
  assumes "0 < x"
  shows "2 powi (ilog2 x) \<le> x" "x < 2 powi (ilog2 x + 1)"
proof -
  obtain p q where pq: "quotient_of x = (p, q)" by (cases "quotient_of x")
  have q: "0 < q" using pq by (rule quotient_of_denom_pos)
  have x: "x = of_int p / of_int q" using pq by (rule quotient_of_div)
  have p: "0 < p" using assms q x by (simp add: zero_less_divide_iff)
  define d where "d = bitlen p - bitlen q"
  have qr: "0 < (of_int q :: rat)" using q by simp
  have "x < 2 powi (bitlen p) / 2 powi (bitlen q - 1)"
    unfolding x using bitlen_powi [OF p] bitlen_powi [OF q] qr p
    by (intro frac_less) auto
  also have "\<dots> = 2 powi (d + 1)"
    by (simp add: d_def field_simps flip: power_int_diff) 
  finally have up: "x < 2 powi (d + 1)" .
  have "2 powi (bitlen p - 1) / 2 powi (bitlen q) < x"
    unfolding x using bitlen_powi [OF p] bitlen_powi [OF q] qr p
    by (intro frac_less2) auto
  moreover have "2 powi (bitlen p - 1) / 2 powi (bitlen q) = (2::rat) powi (d - 1)"
    by (simp add: d_def field_simps flip: power_int_diff) 
  ultimately have lo: "2 powi (d - 1) < x" by simp
  have e: "ilog2 x = (if 2 powi d \<le> x then d else d - 1)"
    by (simp add: ilog2_def pq d_def Let_def)
  show "2 powi (ilog2 x) \<le> x"
    using lo by (simp add: e)
  show "x < 2 powi (ilog2 x + 1)"
    using up by (simp add: e)
qed

section \<open>Rounding to a double\<close>

lemma ilog2_mono:
  assumes "0 < x" "x \<le> y"
  shows "ilog2 x \<le> ilog2 y"
proof -
  have "2 powi (ilog2 x) \<le> x" using assms(1) by (rule ilog2_bounds)
  also have "x \<le> y" by fact
  also have "y < 2 powi (ilog2 y + 1)" using assms by (intro ilog2_bounds) simp
  finally have "(2::rat) powi (ilog2 x) < 2 powi (ilog2 y + 1)" .
  then have "ilog2 x < ilog2 y + 1"
    by (metis linorder_not_less power_int_increasing one_le_numeral)
  then show ?thesis by simp
qed

lemma powi2_add: "(2::rat) powi (a + b) = 2 powi a * 2 powi b"
  by (simp add: power_int_add)

lemma powi2_ulp_52: "(2::rat) powi (e - 52) * 2 ^ 52 = 2 powi e"
proof -
  have "e = (e - 52) + 52" by simp
  then have "(2::rat) powi e = 2 powi ((e - 52) + 52)" by (rule arg_cong)
  also have "\<dots> = 2 powi (e - 52) * 2 powi 52" by (rule powi2_add)
  finally show ?thesis by simp
qed

lemma powi2_ulp_53: "(2::rat) powi (e - 52) * 2 ^ 53 = 2 powi (e + 1)"
proof -
  have "e + 1 = (e - 52) + 53" by simp
  then have "(2::rat) powi (e + 1) = 2 powi ((e - 52) + 53)" by (rule arg_cong)
  also have "\<dots> = 2 powi (e - 52) * 2 powi 53" by (rule powi2_add)
  finally show ?thesis by simp
qed

lemma double_round_pos:
  "0 < x \<Longrightarrow> double_round x
     = of_int (round_even (x / 2 powi (ilog2 x - 52))) * 2 powi (ilog2 x - 52)"
  by (simp add: double_round_def Let_def)

lemma scaled_bounds:
  assumes "0 < x"
  shows "2 ^ 52 \<le> x / 2 powi (ilog2 x - 52)" "x / 2 powi (ilog2 x - 52) < 2 ^ 53"
proof -
  have u: "(2::rat) powi (ilog2 x - 52) * 2 ^ 52 = 2 powi (ilog2 x)"
    by (rule powi2_ulp_52)
  have v: "(2::rat) powi (ilog2 x - 52) * 2 ^ 53 = 2 powi (ilog2 x + 1)"
    by (rule powi2_ulp_53)
  show "2 ^ 52 \<le> x / 2 powi (ilog2 x - 52)"
    using ilog2_bounds(1) [OF assms] u by (simp add: pos_le_divide_eq mult.commute)
  show "x / 2 powi (ilog2 x - 52) < 2 ^ 53"
    using ilog2_bounds(2) [OF assms] v by (simp add: pos_divide_less_eq mult.commute)
qed

lemma double_round_error_ulp:
  assumes "0 < x"
  shows "\<bar>double_round x - x\<bar> \<le> 2 powi (ilog2 x - 52) / 2"
proof -
  define u :: rat where "u = 2 powi (ilog2 x - 52)"
  have u: "0 < u" by (simp add: u_def)
  have "double_round x - x = (of_int (round_even (x / u)) - x / u) * u"
    using u by (simp add: double_round_pos [OF assms] u_def [symmetric] field_simps)
  then have "\<bar>double_round x - x\<bar> = \<bar>of_int (round_even (x / u)) - x / u\<bar> * u"
    using u by (simp add: abs_mult)
  also have "\<dots> \<le> 1 / 2 * u"
    using u round_even_error [of "x / u"] by (intro mult_right_mono) auto
  finally show ?thesis by (simp add: u_def)
qed

lemma double_round_error:
  assumes "0 < x"
  shows "\<bar>double_round x - x\<bar> \<le> x / 2 ^ 53"
proof -
  have "(2::rat) powi (ilog2 x - 52) / 2 = 2 powi (ilog2 x) / 2 ^ 53"
    using power_int_diff [of "2::rat" "ilog2 x" 52] by simp
  also have "\<dots> \<le> x / 2 ^ 53"
    using ilog2_bounds(1) [OF assms] by (intro divide_right_mono) auto
  finally show ?thesis
    using double_round_error_ulp [OF assms] by linarith
qed

lemma double_round_range:
  assumes "0 < x"
  shows "2 powi (ilog2 x) \<le> double_round x" "double_round x \<le> 2 powi (ilog2 x + 1)"
proof -
  define u :: rat where "u = 2 powi (ilog2 x - 52)"
  have u: "0 < u" by (simp add: u_def)
  have lo: "of_int (2 ^ 52) * u = 2 powi (ilog2 x)"
    using powi2_ulp_52 [of "ilog2 x"] by (simp add: u_def mult.commute)
  have hi: "of_int (2 ^ 53) * u = 2 powi (ilog2 x + 1)"
    using powi2_ulp_53 [of "ilog2 x"] by (simp add: u_def mult.commute)
  have dr: "double_round x = of_int (round_even (x / u)) * u"
    by (simp add: double_round_pos [OF assms] u_def)
  have "(of_int (2 ^ 52) :: rat) \<le> x / u"
    using scaled_bounds(1) [OF assms] by (simp add: u_def)
  then have "2 ^ 52 \<le> round_even (x / u)" by (rule round_even_ge_int)
  then have "(of_int (2 ^ 52) :: rat) \<le> of_int (round_even (x / u))"
    by (simp only: of_int_le_iff)
  then have "of_int (2 ^ 52) * u \<le> of_int (round_even (x / u)) * u"
    using u by (intro mult_right_mono) auto
  then show "2 powi (ilog2 x) \<le> double_round x"
    by (simp only: dr lo)
  have "x / u \<le> of_int (2 ^ 53)"
    using scaled_bounds(2) [OF assms] by (simp add: u_def)
  then have "round_even (x / u) \<le> 2 ^ 53" by (rule round_even_le_int)
  then have "(of_int (round_even (x / u)) :: rat) \<le> of_int (2 ^ 53)"
    by (simp only: of_int_le_iff)
  then have "of_int (round_even (x / u)) * u \<le> of_int (2 ^ 53) * u"
    using u by (intro mult_right_mono) auto
  then show "double_round x \<le> 2 powi (ilog2 x + 1)"
    by (simp only: dr hi)
qed

lemma double_round_pos_pos: "0 < x \<Longrightarrow> 0 < double_round x"
  using double_round_range(1) [of x] powi2_pos [of "ilog2 x"] by linarith

lemma double_round_nonneg: "0 \<le> x \<Longrightarrow> 0 \<le> double_round x"
  using double_round_pos_pos [of x] by (cases "x = 0") (auto simp: double_round_def)

lemma double_round_minus: "double_round (- x) = - double_round x"
  by (simp add: double_round_def Let_def round_even_minus)

lemma double_round_mono:
  assumes "0 \<le> x" "x \<le> y"
  shows "double_round x \<le> double_round y"
proof (cases "x = 0")
  case True
  then show ?thesis using assms double_round_nonneg [of y] by (simp add: double_round_def)
next
  case False
  then have x: "0 < x" using assms by simp
  then have y: "0 < y" using assms by simp
  have le: "ilog2 x \<le> ilog2 y" using x assms(2) by (rule ilog2_mono)
  show ?thesis
  proof (cases "ilog2 x = ilog2 y")
    case True
    have "x / 2 powi (ilog2 y - 52) \<le> y / 2 powi (ilog2 y - 52)"
      using assms(2) by (intro divide_right_mono) auto
    then have "round_even (x / 2 powi (ilog2 y - 52)) \<le> round_even (y / 2 powi (ilog2 y - 52))"
      by (rule round_even_mono)
    then have "(of_int (round_even (x / 2 powi (ilog2 y - 52))) :: rat)
                 \<le> of_int (round_even (y / 2 powi (ilog2 y - 52)))"
      by (simp only: of_int_le_iff)
    then show ?thesis
      by (simp add: double_round_pos [OF x] double_round_pos [OF y] True)
  next
    case False
    then have "ilog2 x + 1 \<le> ilog2 y" using le by simp
    then have "(2::rat) powi (ilog2 x + 1) \<le> 2 powi (ilog2 y)"
      by (intro power_int_increasing) auto
    then show ?thesis
      using double_round_range(2) [OF x] double_round_range(1) [OF y] by linarith
  qed
qed

lemma double_round_exact_pos:
  assumes "0 < k" "k < 2 ^ 53"
  shows "double_round (of_int k * 2 powi j) = of_int k * 2 powi j"
proof -
  define x :: rat where "x = of_int k * 2 powi j"
  have x: "0 < x" using assms(1) by (simp add: x_def)
  have "(of_int k :: rat) < of_int (2 ^ 53)"
    using assms(2) by (simp only: of_int_less_iff)
  then have "(of_int k :: rat) < 2 powi 53" by simp
  then have "x < 2 powi 53 * 2 powi j"
    unfolding x_def by (intro mult_strict_right_mono) auto
  also have "\<dots> = 2 powi (53 + j)"
    by (simp only: powi2_add)
  finally have "2 powi (ilog2 x) < (2::rat) powi (53 + j)"
    using ilog2_bounds(1) [OF x] by linarith
  then have "ilog2 x < 53 + j"
    by (metis linorder_not_less power_int_increasing one_le_numeral)
  then have n: "0 \<le> j - (ilog2 x - 52)" by simp
  define m where "m = nat (j - (ilog2 x - 52))"
  define u :: rat where "u = 2 powi (ilog2 x - 52)"
  have u: "0 < u" by (simp add: u_def)
  have "(2::rat) powi j / u = 2 powi (j - (ilog2 x - 52))"
    by (simp add: power_int_diff u_def)
  also have "\<dots> = 2 ^ m"
    using n by (simp add: power_int_nonneg_exp m_def)
  finally have pj: "(2::rat) powi j = 2 ^ m * u"
    using u by (simp add: field_simps)
  have xu: "x = of_int (k * 2 ^ m) * u"
    by (simp add: x_def pj)
  then have "x / u = of_int (k * 2 ^ m)"
    using u by simp
  then have "round_even (x / u) = k * 2 ^ m"
    by (simp only: round_even_of_int)
  then have "double_round x = of_int (k * 2 ^ m) * u"
    by (simp add: double_round_pos [OF x] u_def)
  then have "double_round x = x"
    by (simp only: xu [symmetric])
  then show ?thesis by (simp only: x_def)
qed

lemma double_round_exact:
  assumes "\<bar>k\<bar> < 2 ^ 53"
  shows "double_round (of_int k * 2 powi j) = of_int k * 2 powi j"
proof -
  consider "k = 0" | "0 < k" | "k < 0" by linarith
  then show ?thesis
  proof cases
    case 1
    then show ?thesis by (simp add: double_round_def)
  next
    case 2
    then show ?thesis using assms by (intro double_round_exact_pos) auto
  next
    case 3
    then have "double_round (of_int (- k) * 2 powi j) = of_int (- k) * 2 powi j"
      using assms by (intro double_round_exact_pos) auto
    then show ?thesis
      using double_round_minus [of "of_int k * 2 powi j"] by simp
  qed
qed

lemma double_round_of_int: "\<bar>n\<bar> < 2 ^ 53 \<Longrightarrow> double_round (of_int n) = of_int n"
  using double_round_exact [of n 0] by simp

section \<open>Conversions and the fill ratio\<close>

lemma c_trunc_nonneg: "0 \<le> x \<Longrightarrow> c_trunc x = \<lfloor>x\<rfloor>"
  by (simp add: c_trunc_def)

lemma int_of_double_in_range:
  assumes "0 \<le> x" "x \<le> of_int n" "n \<le> INT_MAX"
  shows "int_of_double x = Inr \<lfloor>x\<rfloor>"
proof -
  have "0 \<le> \<lfloor>x\<rfloor>" using assms(1) by simp
  moreover have "\<lfloor>x\<rfloor> \<le> n" using assms(2) by (simp add: floor_le_iff)
  ultimately show ?thesis
    using assms(1,3) by (simp add: int_of_double_def c_trunc_nonneg INT_MIN_def Let_def)
qed

lemma double_of_int_exact: "\<bar>n\<bar> < 2 ^ 53 \<Longrightarrow> double_of_int n = of_int n"
  by (simp add: double_of_int_def double_round_of_int)

lemma double_of_ulong_nonneg: "0 \<le> double_of_ulong v"
  unfolding double_of_ulong_def by (intro double_round_nonneg of_int_nonneg) simp

lemma double_of_ulong_pos: "v \<noteq> 0 \<Longrightarrow> 0 < double_of_ulong v"
proof -
  assume "v \<noteq> 0"
  then have "0 < uint v" by (simp add: word_neq_0_conv word_less_def)
  then have "0 < (of_int (uint v) :: rat)" by (rule of_int_pos)
  then show ?thesis unfolding double_of_ulong_def by (rule double_round_pos_pos)
qed

lemma double_of_ulong_mono: "v \<le> w \<Longrightarrow> double_of_ulong v \<le> double_of_ulong w"
proof -
  assume "v \<le> w"
  then have "uint v \<le> uint w" by (simp add: word_le_def)
  then have "(of_int (uint v) :: rat) \<le> of_int (uint w)" by (simp only: of_int_le_iff)
  moreover have "0 \<le> (of_int (uint v) :: rat)" by (intro of_int_nonneg) simp
  ultimately show ?thesis unfolding double_of_ulong_def by (intro double_round_mono)
qed

text \<open>The fill ratio of an incomplete bar is a double between 0 and 1.\<close>

lemma ratio_bounds:
  fixes bar :: "'w::len progressbar"
  assumes "\<not> progressbar_completed bar"
  shows "\<exists>q. double_div (double_of_ulong (bar_value bar)) (double_of_ulong (bar_max bar)) = Inr q
             \<and> 0 \<le> q \<and> q \<le> 1"
proof -
  have lt: "bar_value bar < bar_max bar"
    using assms by (simp add: progressbar_completed_def not_le)
  then have "bar_max bar \<noteq> 0" by (auto simp: word_less_def)
  then have M: "0 < double_of_ulong (bar_max bar)" by (rule double_of_ulong_pos)
  have V: "0 \<le> double_of_ulong (bar_value bar)" by (rule double_of_ulong_nonneg)
  have VM: "double_of_ulong (bar_value bar) \<le> double_of_ulong (bar_max bar)"
    using lt by (intro double_of_ulong_mono) simp
  define r where "r = double_of_ulong (bar_value bar) / double_of_ulong (bar_max bar)"
  have r0: "0 \<le> r" using V M by (simp add: r_def)
  have r1: "r \<le> 1" using VM M by (simp add: r_def)
  have "double_round r \<le> double_round 1" using r0 r1 by (rule double_round_mono)
  moreover have "double_round 1 = 1" using double_round_of_int [of 1] by simp
  ultimately have "double_round r \<le> 1" by simp
  moreover have "0 \<le> double_round r" using r0 by (rule double_round_nonneg)
  ultimately show ?thesis
    using M by (simp add: double_div_def r_def)
qed

lemma bar_piece_current_bounds:
  fixes bar :: "'w::len progressbar"
  assumes "0 \<le> n" "n \<le> INT_MAX"
  shows "\<exists>f. draw_bar_piece_current n bar = Inr f \<and> 0 \<le> f \<and> f \<le> n"
proof -
  have small: "\<bar>n\<bar> < 2 ^ 53" using assms by (simp add: INT_MAX_def)
  have cn: "double_of_int n = of_int n" using small by (rule double_of_int_exact)
  show ?thesis
  proof (cases "progressbar_completed bar")
    case True
    have "int_of_double (of_int n) = Inr \<lfloor>(of_int n :: rat)\<rfloor>"
      using assms by (intro int_of_double_in_range [where n = n]) auto
    then show ?thesis using True assms by (simp add: draw_bar_piece_current_def cn)
  next
    case False
    then obtain q where q: "double_div (double_of_ulong (bar_value bar)) (double_of_ulong (bar_max bar)) = Inr q"
      "0 \<le> q" "q \<le> 1"
      using ratio_bounds by blast
    define p where "p = double_mul (of_int n) q"
    have nq0: "0 \<le> of_int n * q" using assms q by simp
    have nq1: "of_int n * q \<le> of_int n"
      using assms q mult_left_mono [of q 1 "of_int n"] by simp
    have p0: "0 \<le> p" unfolding p_def double_mul_def using nq0 by (rule double_round_nonneg)
    have "p \<le> double_round (of_int n)"
      unfolding p_def double_mul_def using nq0 nq1 by (rule double_round_mono)
    then have p1: "p \<le> of_int n" using small by (simp add: double_round_of_int)
    have "int_of_double p = Inr \<lfloor>p\<rfloor>"
      using p0 p1 assms(2) by (rule int_of_double_in_range)
    moreover have "0 \<le> \<lfloor>p\<rfloor>" using p0 by simp
    moreover have "\<lfloor>p\<rfloor> \<le> n" using p1 by (simp add: floor_le_iff)
    ultimately show ?thesis
      using False by (simp add: draw_bar_piece_current_def cn q(1) c_bind_def p_def)
  qed
qed

section \<open>Accumulated rounding error\<close>

lemma rel_hi_gt1: "1 < rel_hi" by (simp add: rel_hi_def)
lemma rel_hi_pos: "0 < rel_hi" by (simp add: rel_hi_def)
lemma rel_hi_pow_ge1: "1 \<le> rel_hi ^ k" using rel_hi_gt1 by (simp add: one_le_power)

lemma near_nonneg: "near k y x \<Longrightarrow> 0 \<le> y"
proof -
  assume a: "near k y x"
  have "0 < rel_hi ^ k" using rel_hi_pos by simp
  moreover have "0 \<le> y * rel_hi ^ k" using a by (auto simp: near_def)
  ultimately show ?thesis by (simp add: zero_le_mult_iff)
qed

lemma near_refl: "0 \<le> x \<Longrightarrow> near 0 x x"
  by (simp add: near_def)

lemma near_round:
  assumes "0 \<le> x"
  shows "near 1 (double_round x) x"
proof (cases "x = 0")
  case True
  then show ?thesis by (simp add: near_def double_round_def)
next
  case False
  then have x: "0 < x" using assms by simp
  have e: "\<bar>double_round x - x\<bar> \<le> x / 2 ^ 53" using x by (rule double_round_error)
  have e1: "x - double_round x \<le> x / 2 ^ 53" and e2: "double_round x - x \<le> x / 2 ^ 53"
    using e by linarith+
  have r: "0 \<le> double_round x" using assms by (rule double_round_nonneg)
  have a: "x * (2 ^ 53 - 1) \<le> double_round x * (2 ^ 53 + 1)"
    using e1 assms r by simp
  have b: "double_round x * (2 ^ 53 - 1) \<le> x * (2 ^ 53 + 1)"
    using e2 assms r by simp
  show ?thesis
    using assms a b by (simp add: near_def rel_hi_def field_simps)
qed

lemma near_trans:
  assumes "near j y x" "near k z y"
  shows "near (j + k) z x"
proof -
  have x: "0 \<le> x" using assms(1) by (simp add: near_def)
  have pj: "0 \<le> rel_hi ^ j" and pk: "0 \<le> rel_hi ^ k" using rel_hi_pos by simp_all
  have "x \<le> y * rel_hi ^ j" using assms(1) by (simp add: near_def)
  also have "\<dots> \<le> (z * rel_hi ^ k) * rel_hi ^ j"
    using assms(2) pj by (intro mult_right_mono) (auto simp: near_def)
  finally have a: "x \<le> z * rel_hi ^ (j + k)" by (simp add: power_add mult_ac)
  have "z \<le> y * rel_hi ^ k" using assms(2) by (simp add: near_def)
  also have "\<dots> \<le> (x * rel_hi ^ j) * rel_hi ^ k"
    using assms(1) pk by (intro mult_right_mono) (auto simp: near_def)
  finally have b: "z \<le> x * rel_hi ^ (j + k)" by (simp add: power_add mult_ac)
  show ?thesis using x a b by (simp add: near_def)
qed

lemma near_mult:
  assumes "near j y x" "near k y' x'"
  shows "near (j + k) (y * y') (x * x')"
proof -
  have x: "0 \<le> x" "0 \<le> x'" using assms by (simp_all add: near_def)
  have y: "0 \<le> y" "0 \<le> y'" using assms near_nonneg by blast+
  have pj: "0 \<le> rel_hi ^ j" and pk: "0 \<le> rel_hi ^ k" using rel_hi_pos by simp_all
  have "x * x' \<le> (y * rel_hi ^ j) * (y' * rel_hi ^ k)"
    using assms x by (intro mult_mono) (auto simp: near_def intro: mult_nonneg_nonneg y pj pk)
  then have a: "x * x' \<le> y * y' * rel_hi ^ (j + k)" by (simp add: power_add mult_ac)
  have "y * y' \<le> (x * rel_hi ^ j) * (x' * rel_hi ^ k)"
    using assms y by (intro mult_mono) (auto simp: near_def intro: mult_nonneg_nonneg x pj pk)
  then have b: "y * y' \<le> x * x' * rel_hi ^ (j + k)" by (simp add: power_add mult_ac)
  show ?thesis using x a b by (simp add: near_def)
qed

lemma near_inverse:
  assumes "near k y x" "0 < x"
  shows "near k (1 / y) (1 / x)"
proof -
  have p: "0 < rel_hi ^ k" using rel_hi_pos by simp
  have xy: "x \<le> y * rel_hi ^ k" "y \<le> x * rel_hi ^ k" using assms(1) by (simp_all add: near_def)
  have "0 < y * rel_hi ^ k" using xy(1) assms(2) by linarith
  then have y: "0 < y" using p by (rule zero_less_mult_pos2)
  have a: "1 / x \<le> 1 / y * rel_hi ^ k"
    using xy(2) assms(2) y by (simp add: field_simps)
  have b: "1 / y \<le> 1 / x * rel_hi ^ k"
    using xy(1) assms(2) y by (simp add: field_simps)
  show ?thesis using assms(2) a b by (simp add: near_def)
qed

lemma near_divide:
  assumes "near j y x" "near k y' x'" "0 < x'"
  shows "near (j + k) (y / y') (x / x')"
  using near_mult [OF assms(1) near_inverse [OF assms(2,3)]] by simp

lemma rel_hi_pow5: "rel_hi ^ 5 \<le> 1 + 1 / 2 ^ 49"
  by (simp add: rel_hi_def power_divide)

lemma near_mono: "near j y x \<Longrightarrow> j \<le> k \<Longrightarrow> near k y x"
proof -
  assume a: "near j y x" and jk: "j \<le> k"
  have "near (j + (k - j)) y x"
  proof (rule near_trans [OF a])
    show "near (k - j) y y"
      using near_nonneg [OF a] rel_hi_pow_ge1 [of "k - j"]
      by (simp add: near_def mult_le_cancel_left1)
  qed
  then show ?thesis using jk by simp
qed

lemma near_5_close:
  assumes "near 5 y x" "x \<le> 2 ^ 31"
  shows "\<bar>y - x\<bar> < 1 / 2"
proof -
  have x: "0 \<le> x" and xy: "x \<le> y * rel_hi ^ 5" and yx: "y \<le> x * rel_hi ^ 5"
    using assms(1) by (simp_all add: near_def)
  have y: "0 \<le> y" using assms(1) by (rule near_nonneg)
  have a: "y \<le> x * (1 + 1 / 2 ^ 49)"
    using yx mult_left_mono [OF rel_hi_pow5 x] by linarith
  have b: "x \<le> y * (1 + 1 / 2 ^ 49)"
    using xy mult_left_mono [OF rel_hi_pow5 y] by linarith
  have "y - x < 1 / 2" "x - y < 1 / 2"
    using a b assms(2) x y by simp_all
  then show ?thesis by linarith
qed

section \<open>The filled-cell count\<close>

lemma near_ulong: "near 1 (double_of_ulong v) (of_int (uint v))"
  unfolding double_of_ulong_def by (intro near_round of_int_nonneg) simp

lemma floor_close:
  fixes p x :: rat
  assumes "\<bar>p - x\<bar> < 1 / 2"
  shows "\<bar>\<lfloor>p\<rfloor> - \<lfloor>x\<rfloor>\<bar> \<le> 1"
proof -
  have "p < x + 1" "x < p + 1" using assms by linarith+
  then have "\<lfloor>p\<rfloor> \<le> \<lfloor>x\<rfloor> + 1" "\<lfloor>x\<rfloor> \<le> \<lfloor>p\<rfloor> + 1"
    by linarith+
  then show ?thesis by linarith
qed

lemma fill_incomplete:
  fixes bar :: "'w::len progressbar"
  assumes "\<not> progressbar_completed bar" "0 \<le> n" "n \<le> INT_MAX"
  shows "\<exists>p::rat. draw_bar_piece_current n bar = Inr \<lfloor>p\<rfloor> \<and> 0 \<le> p \<and> p \<le> of_int n
           \<and> \<bar>p - of_int (n * uint (bar_value bar)) / of_int (uint (bar_max bar))\<bar> < 1 / 2"
proof -
  define v :: rat where "v = of_int (uint (bar_value bar))"
  define m :: rat where "m = of_int (uint (bar_max bar))"
  have small: "\<bar>n\<bar> < 2 ^ 53" using assms by (simp add: INT_MAX_def)
  have cn: "double_of_int n = of_int n" using small by (rule double_of_int_exact)
  have lt: "bar_value bar < bar_max bar"
    using assms(1) by (simp add: progressbar_completed_def not_le)
  then have "uint (bar_value bar) < uint (bar_max bar)" by (simp add: word_less_def)
  then have vm: "v < m" unfolding v_def m_def by (simp only: of_int_less_iff)
  have v0: "0 \<le> v" unfolding v_def by (intro of_int_nonneg) simp
  have m0: "0 < m" using vm v0 by simp
  obtain q where q: "double_div (double_of_ulong (bar_value bar)) (double_of_ulong (bar_max bar)) = Inr q"
      "0 \<le> q" "q \<le> 1"
    using ratio_bounds [OF assms(1)] by blast
  have M: "0 < double_of_ulong (bar_max bar)"
    using lt by (intro double_of_ulong_pos) auto
  have qd: "q = double_round (double_of_ulong (bar_value bar) / double_of_ulong (bar_max bar))"
    using q(1) M by (simp add: double_div_def)
  have "near (1 + 1) (double_of_ulong (bar_value bar) / double_of_ulong (bar_max bar)) (v / m)"
    unfolding v_def m_def using m0 by (intro near_divide near_ulong) (simp add: m_def)
  then have "near (1 + 1 + 1) q (v / m)"
    unfolding qd by (rule near_trans) (intro near_round divide_nonneg_nonneg double_of_ulong_nonneg)
  then have nq: "near (0 + (1 + 1 + 1)) (of_int n * q) (of_int n * (v / m))"
    using assms(2) by (intro near_mult near_refl) auto
  define p where "p = double_round (of_int n * q)"
  have nq0: "0 \<le> of_int n * q" using assms q by simp
  have nq1: "of_int n * q \<le> of_int n"
    using assms q mult_left_mono [of q 1 "of_int n"] by simp
  have p0: "0 \<le> p" unfolding p_def using nq0 by (rule double_round_nonneg)
  have "p \<le> double_round (of_int n)"
    unfolding p_def using nq0 nq1 by (rule double_round_mono)
  then have p1: "p \<le> of_int n" using small by (simp add: double_round_of_int)
  have "near (0 + (1 + 1 + 1) + 1) p (of_int n * (v / m))"
    unfolding p_def using nq by (rule near_trans) (intro near_round nq0)
  then have n5: "near 5 p (of_int n * (v / m))" by (rule near_mono) simp
  have "v / m \<le> 1" using vm m0 by simp
  then have "of_int n * (v / m) \<le> of_int n * 1"
    using assms(2) by (intro mult_left_mono) auto
  also have "\<dots> \<le> 2 ^ 31" using assms(3) by (simp add: INT_MAX_def)
  finally have "\<bar>p - of_int n * (v / m)\<bar> < 1 / 2" by (rule near_5_close [OF n5])
  then have close: "\<bar>p - of_int (n * uint (bar_value bar)) / of_int (uint (bar_max bar))\<bar> < 1 / 2"
    by (simp add: v_def m_def)
  have "int_of_double p = Inr \<lfloor>p\<rfloor>"
    using p0 p1 assms(3) by (rule int_of_double_in_range)
  then have "draw_bar_piece_current n bar = Inr \<lfloor>p\<rfloor>"
    using assms(1) by (simp add: draw_bar_piece_current_def cn q(1) c_bind_def p_def double_mul_def)
  then show ?thesis using p0 p1 close by blast
qed

lemma fill_complete:
  fixes bar :: "'w::len progressbar"
  assumes "progressbar_completed bar" "0 \<le> n" "n \<le> INT_MAX"
  shows "draw_bar_piece_current n bar = Inr n"
proof -
  have small: "\<bar>n\<bar> < 2 ^ 53" using assms by (simp add: INT_MAX_def)
  have cn: "double_of_int n = of_int n" using small by (rule double_of_int_exact)
  have "int_of_double (of_int n) = Inr \<lfloor>(of_int n :: rat)\<rfloor>"
    using assms by (intro int_of_double_in_range [where n = n]) auto
  then show ?thesis using assms by (simp add: draw_bar_piece_current_def cn)
qed

lemma double_of_ulong_exact: "uint v < 2 ^ 53 \<Longrightarrow> double_of_ulong v = of_int (uint v)"
  unfolding double_of_ulong_def by (intro double_round_of_int) simp

lemma powi2_less_imp_less: "(2::rat) powi a < 2 powi b \<Longrightarrow> a < b"
  by (metis linorder_not_less power_int_increasing one_le_numeral)

text \<open>Just below an integer \<open>n\<close>: the product \<open>n * (1 - 2^-53)\<close> is rounded to a double below \<open>n\<close>.\<close>

lemma double_round_below_int:
  assumes "0 < n" "n < 2 ^ 53"
  shows "double_round (of_int n * (1 - 1 / 2 ^ 53)) < of_int n"
proof -
  define x :: rat where "x = of_int n * (1 - 1 / 2 ^ 53)"
  define u :: rat where "u = 2 powi (ilog2 x - 52)"
  have n0: "0 < (of_int n :: rat)" using assms(1) by simp
  have x0: "0 < x" unfolding x_def using n0 by (intro mult_pos_pos) auto
  have xn: "x < of_int n" unfolding x_def using n0 by simp
  have u: "0 < u" by (simp add: u_def)
  have "(of_int n :: rat) < of_int (2 ^ 53)" using assms(2) by (simp only: of_int_less_iff)
  then have "(of_int n :: rat) < 2 powi 53" by simp
  then have "(2::rat) powi (ilog2 x) < 2 powi 53"
    using ilog2_bounds(1) [OF x0] xn by linarith
  then have "ilog2 x < 53" by (rule powi2_less_imp_less)
  then have k0: "0 \<le> 52 - ilog2 x" by simp
  define k where "k = nat (52 - ilog2 x)"
  have "u * 2 powi (52 - ilog2 x) = 2 powi ((ilog2 x - 52) + (52 - ilog2 x))"
    unfolding u_def by (simp only: powi2_add)
  then have "u * 2 powi (52 - ilog2 x) = 1" by simp
  then have uk: "u * 2 ^ k = 1" using k0 by (simp add: power_int_nonneg_exp k_def)
  then have nu: "of_int n / u = of_int (n * 2 ^ k)"
    using u by (simp add: field_simps)
  have e1: "u * 2 ^ 53 = 2 powi (ilog2 x + 1)" unfolding u_def by (rule powi2_ulp_53)
  have half: "2 powi (ilog2 x) / (u * 2 ^ 53) = 1 / 2"
    unfolding e1 using power_int_add_1 [of "2::rat" "ilog2 x"] by simp
  have "2 powi (ilog2 x) < (of_int n :: rat)" using ilog2_bounds(1) [OF x0] xn by linarith
  then have "2 powi (ilog2 x) / (u * 2 ^ 53) < of_int n / (u * 2 ^ 53)"
    using u by (intro divide_strict_right_mono) auto
  then have gap: "1 / 2 < of_int n / (u * 2 ^ 53)" by (simp only: half)
  have "x / u = of_int n / u - of_int n / (u * 2 ^ 53)"
    using u by (simp add: x_def field_simps)
  then have "x / u < of_int (n * 2 ^ k) - 1 / 2"
    using gap by (simp only: nu)
  then have "round_even (x / u) < n * 2 ^ k" by (rule round_even_less_half)
  then have "round_even (x / u) \<le> n * 2 ^ k - 1" by simp
  then have "(of_int (round_even (x / u)) :: rat) \<le> of_int (n * 2 ^ k - 1)"
    by (simp only: of_int_le_iff)
  then have "of_int (round_even (x / u)) * u \<le> of_int (n * 2 ^ k - 1) * u"
    using u by (intro mult_right_mono) auto
  also have "\<dots> = of_int n * (2 ^ k * u) - u" by (simp add: algebra_simps)
  also have "\<dots> = of_int n - u" using uk by (simp add: mult.commute)
  finally have "double_round x \<le> of_int n - u"
    by (simp add: double_round_pos [OF x0] u_def)
  then show ?thesis using u by (simp add: x_def)
qed

lemma fill_incomplete_strict:
  fixes bar :: "'w::len progressbar"
  assumes "\<not> progressbar_completed bar" "0 < n" "n \<le> INT_MAX" "uint (bar_max bar) < 2 ^ 53"
  shows "\<exists>f. draw_bar_piece_current n bar = Inr f \<and> f < n"
proof -
  define v :: rat where "v = of_int (uint (bar_value bar))"
  define m :: rat where "m = of_int (uint (bar_max bar))"
  have small: "\<bar>n\<bar> < 2 ^ 53" using assms by (simp add: INT_MAX_def)
  have cn: "double_of_int n = of_int n" using small by (rule double_of_int_exact)
  have lt: "bar_value bar < bar_max bar"
    using assms(1) by (simp add: progressbar_completed_def not_le)
  then have ui: "uint (bar_value bar) < uint (bar_max bar)" by (simp add: word_less_def)
  then have "uint (bar_value bar) + 1 \<le> uint (bar_max bar)" by simp
  then have "(of_int (uint (bar_value bar) + 1) :: rat) \<le> of_int (uint (bar_max bar))"
    by (simp only: of_int_le_iff)
  then have vm: "v + 1 \<le> m" by (simp add: v_def m_def)
  have v0: "0 \<le> v" unfolding v_def by (intro of_int_nonneg) simp
  have m0: "0 < m" using vm v0 by simp
  have "(of_int (uint (bar_max bar)) :: rat) < of_int (2 ^ 53)"
    using assms(4) by (simp only: of_int_less_iff)
  then have m53: "m < 2 ^ 53" by (simp add: m_def)
  have V: "double_of_ulong (bar_value bar) = v"
    unfolding v_def using ui assms(4) by (intro double_of_ulong_exact) simp
  have M: "double_of_ulong (bar_max bar) = m"
    unfolding m_def using assms(4) by (intro double_of_ulong_exact)
  have "v / m \<le> (m - 1) / m" using vm m0 by (intro divide_right_mono) auto
  also have "\<dots> = 1 - 1 / m" using m0 by (simp add: field_simps)
  also have "\<dots> \<le> 1 - 1 / 2 ^ 53"
    using m53 m0 by (simp add: field_simps)
  finally have r: "v / m \<le> 1 - 1 / 2 ^ 53" .
  have r0: "0 \<le> v / m" using v0 m0 by simp
  define q where "q = double_round (v / m)"
  have "(1::rat) - 1 / 2 ^ 53 = of_int (2 ^ 53 - 1) * 2 powi (- 53)"
    by (simp add: power_int_minus field_simps)
  moreover have "double_round (of_int (2 ^ 53 - 1) * 2 powi (- 53)) = of_int (2 ^ 53 - 1) * 2 powi (- 53)"
    by (rule double_round_exact) simp
  ultimately have ex: "double_round (1 - 1 / 2 ^ 53) = 1 - 1 / 2 ^ 53" by simp
  have "q \<le> double_round (1 - 1 / 2 ^ 53)"
    unfolding q_def using r0 r by (rule double_round_mono)
  then have q1: "q \<le> 1 - 1 / 2 ^ 53" by (simp only: ex)
  have q0: "0 \<le> q" unfolding q_def using r0 by (rule double_round_nonneg)
  have dv: "double_div (double_of_ulong (bar_value bar)) (double_of_ulong (bar_max bar)) = Inr q"
    using m0 by (simp add: double_div_def V M q_def)
  define p where "p = double_round (of_int n * q)"
  have nq0: "0 \<le> of_int n * q" using assms(2) q0 by simp
  have nq1: "of_int n * q \<le> of_int n * (1 - 1 / 2 ^ 53)"
    using assms(2) q1 by (intro mult_left_mono) auto
  have "p \<le> double_round (of_int n * (1 - 1 / 2 ^ 53))"
    unfolding p_def using nq0 nq1 by (rule double_round_mono)
  also have "\<dots> < of_int n"
    using assms(2) small by (intro double_round_below_int) auto
  finally have pn: "p < of_int n" .
  have p0: "0 \<le> p" unfolding p_def using nq0 by (rule double_round_nonneg)
  have "int_of_double p = Inr \<lfloor>p\<rfloor>"
    using p0 pn assms(3) by (intro int_of_double_in_range [where n = n]) auto
  then have "draw_bar_piece_current n bar = Inr \<lfloor>p\<rfloor>"
    using assms(1) by (simp add: draw_bar_piece_current_def cn dv c_bind_def p_def double_mul_def)
  moreover have "\<lfloor>p\<rfloor> < n" using pn by (simp add: floor_less_iff)
  ultimately show ?thesis by blast
qed

section \<open>Layout and time decomposition: results\<close>

lemma c_div_nonneg: "0 \<le> a \<Longrightarrow> 0 < b \<Longrightarrow> c_div a b = a div b"
  by (cases "a = 0") (simp_all add: c_div_def)

lemma int_wrap_id: "INT_MIN \<le> x \<Longrightarrow> x \<le> INT_MAX \<Longrightarrow> int_wrap x = x"
  by (simp add: int_wrap_def INT_MIN_def INT_MAX_def)

lemma bar_width_int32_exact:
  assumes "INT_MIN + 15 \<le> W - L" "W - L \<le> INT_MAX"
  shows "progressbar_bar_width_int32 W L = progressbar_bar_width W L"
proof -
  have a: "int_sub W L = W - L"
    using assms unfolding int_sub_def by (intro int_wrap_id) (simp_all add: INT_MIN_def)
  have b: "int_sub (W - L) ETA_FORMAT_LENGTH = W - L - ETA_FORMAT_LENGTH"
    using assms unfolding int_sub_def
    by (intro int_wrap_id) (simp_all add: INT_MIN_def INT_MAX_def ETA_FORMAT_LENGTH_def)
  have c: "int_sub (W - L - ETA_FORMAT_LENGTH) WHITESPACE_LENGTH
             = W - L - ETA_FORMAT_LENGTH - WHITESPACE_LENGTH"
    using assms unfolding int_sub_def
    by (intro int_wrap_id)
      (simp_all add: INT_MIN_def INT_MAX_def ETA_FORMAT_LENGTH_def WHITESPACE_LENGTH_def)
  show ?thesis
    unfolding progressbar_bar_width_int32_def progressbar_bar_width_def a b c
    by (rule refl)
qed

lemma label_width_int32_exact:
  assumes "0 \<le> L" "0 \<le> B" "L + B + 15 \<le> INT_MAX" "INT_MIN + 15 \<le> W - B" "W - B \<le> INT_MAX"
  shows "progressbar_label_width_int32 W L B = progressbar_label_width W L B"
proof -
  have a1: "int_add L 1 = L + 1"
    using assms unfolding int_add_def by (intro int_wrap_id) (simp_all add: INT_MIN_def)
  have a2: "int_add (L + 1) B = L + 1 + B"
    using assms unfolding int_add_def by (intro int_wrap_id) (simp_all add: INT_MIN_def)
  have a3: "int_add (L + 1 + B) 1 = L + 1 + B + 1"
    using assms unfolding int_add_def by (intro int_wrap_id) (simp_all add: INT_MIN_def)
  have a4: "int_add (L + 1 + B + 1) ETA_FORMAT_LENGTH = L + 1 + B + 1 + ETA_FORMAT_LENGTH"
    using assms unfolding int_add_def
    by (intro int_wrap_id) (simp_all add: INT_MIN_def ETA_FORMAT_LENGTH_def)
  have s1: "int_sub W B = W - B"
    using assms unfolding int_sub_def by (intro int_wrap_id) (simp_all add: INT_MIN_def)
  have s2: "int_sub (W - B) ETA_FORMAT_LENGTH = W - B - ETA_FORMAT_LENGTH"
    using assms unfolding int_sub_def
    by (intro int_wrap_id) (simp_all add: INT_MIN_def INT_MAX_def ETA_FORMAT_LENGTH_def)
  have s3: "int_sub (W - B - ETA_FORMAT_LENGTH) WHITESPACE_LENGTH
              = W - B - ETA_FORMAT_LENGTH - WHITESPACE_LENGTH"
    using assms unfolding int_sub_def
    by (intro int_wrap_id)
      (simp_all add: INT_MIN_def INT_MAX_def ETA_FORMAT_LENGTH_def WHITESPACE_LENGTH_def)
  show ?thesis
    unfolding progressbar_label_width_int32_def progressbar_label_width_def Let_def
      a1 a2 a3 a4 s1 s2 s3
    by (rule refl)
qed

text \<open>
  On the inputs of a draw, for a label shorter than \<open>2^31 - 2^17\<close> bytes, the 32-bit
  layout is the exact one.
\<close>

lemma layout_int32_in_draw:
  assumes "1 \<le> W" "W \<le> 65535" "0 \<le> L" "L < 2 ^ 31 - 2 ^ 17"
  shows "progressbar_bar_width_int32 W L = progressbar_bar_width W L"
    and "progressbar_label_width_int32 W L (progressbar_bar_width W L)
           = progressbar_label_width W L (progressbar_bar_width W L)"
proof -
  show "progressbar_bar_width_int32 W L = progressbar_bar_width W L"
    using assms by (intro bar_width_int32_exact) (simp_all add: INT_MIN_def INT_MAX_def)
  have b10: "10 \<le> progressbar_bar_width W L" "progressbar_bar_width W L \<le> 65520"
    using assms
    by (simp_all add: progressbar_bar_width_def progressbar_max_def MINIMUM_BAR_WIDTH_def
        ETA_FORMAT_LENGTH_def WHITESPACE_LENGTH_def)
  show "progressbar_label_width_int32 W L (progressbar_bar_width W L)
           = progressbar_label_width W L (progressbar_bar_width W L)"
    using assms b10
    by (intro label_width_int32_exact) (simp_all add: INT_MIN_def INT_MAX_def)
qed

text \<open>
  C5 (amended). For every screen width and every label length the computed bar width
  is at least 10. It equals \<open>max 10 (W - labelLen - 13 - 2)\<close> whenever the subtraction
  does not overflow an \<open>int\<close>, that is for \<open>INT_MIN + 15 \<le> W - labelLen \<le> INT_MAX\<close>, which
  holds for every \<open>W \<ge> 0\<close> and every label length from 0 to \<open>INT_MAX - 15\<close>.
\<close>

theorem bar_width_int32_max_10:
  "10 \<le> progressbar_bar_width_int32 W labelLen
   \<and> (INT_MIN + 15 \<le> W - labelLen \<and> W - labelLen \<le> INT_MAX
        \<longrightarrow> progressbar_bar_width_int32 W labelLen = max 10 (W - labelLen - 13 - 2))"
proof -
  have "10 \<le> progressbar_bar_width_int32 W labelLen"
    by (simp add: progressbar_bar_width_int32_def progressbar_max_def MINIMUM_BAR_WIDTH_def)
  moreover have "progressbar_bar_width_int32 W labelLen = max 10 (W - labelLen - 13 - 2)"
    if "INT_MIN + 15 \<le> W - labelLen" "W - labelLen \<le> INT_MAX"
    using bar_width_int32_exact [OF that]
    by (simp add: progressbar_bar_width_def progressbar_max_def MINIMUM_BAR_WIDTH_def
        ETA_FORMAT_LENGTH_def WHITESPACE_LENGTH_def max_def)
  ultimately show ?thesis by blast
qed

theorem bar_width_int32_max_10_witness:
  "INT_MIN + 15 \<le> (80::int) - 8 \<and> (80::int) - 8 \<le> INT_MAX
   \<and> progressbar_bar_width_int32 80 8 = 57 \<and> max 10 ((80::int) - 8 - 13 - 2) = 57
   \<and> 10 \<le> progressbar_bar_width_int32 80 8"
  using bar_width_int32_max_10 [of 80 8] by (simp add: INT_MIN_def INT_MAX_def)

text \<open>
  C5 as stated fails: on a terminal of one column with a label of \<open>INT_MAX\<close> bytes the
  difference \<open>1 - INT_MAX - 13\<close> overflows, and the wrapped bar width is 2147483635
  where \<open>max 10 (W - labelLen - 13 - 2)\<close> is 10.
\<close>

theorem bar_width_int32_overflow:
  "progressbar_bar_width_int32 1 2147483647 = 2147483635
   \<and> max 10 (1 - 2147483647 - 13 - 2) = (10::int)"
  by (simp add: progressbar_bar_width_int32_def progressbar_max_def MINIMUM_BAR_WIDTH_def
      ETA_FORMAT_LENGTH_def WHITESPACE_LENGTH_def int_sub_def int_wrap_def)

text \<open>
  C4 (amended). For every screen width \<open>W \<ge> 25\<close> (an \<open>int\<close>, so at most \<open>INT_MAX\<close>) and
  every label length from 0 to \<open>INT_MAX - 25\<close>, the label width and the bar width that
  the two layout functions return satisfy \<open>labelWidth + 1 + barWidth + 1 + 13 \<le> W\<close>.
\<close>

theorem layout_int32_fits_screen:
  assumes "25 \<le> W" and "W \<le> INT_MAX" and "0 \<le> labelLen" and "labelLen \<le> INT_MAX - 25"
  shows "progressbar_label_width_int32 W labelLen (progressbar_bar_width_int32 W labelLen)
         + 1 + progressbar_bar_width_int32 W labelLen + 1 + 13 \<le> W"
proof -
  have bw: "progressbar_bar_width_int32 W labelLen = progressbar_bar_width W labelLen"
    using assms by (intro bar_width_int32_exact) (simp_all add: INT_MIN_def INT_MAX_def)
  have b10: "10 \<le> progressbar_bar_width W labelLen"
    by (simp add: progressbar_bar_width_def progressbar_max_def MINIMUM_BAR_WIDTH_def)
  have bup: "progressbar_bar_width W labelLen \<le> max 10 (W - labelLen - 15)"
    by (simp add: progressbar_bar_width_def progressbar_max_def MINIMUM_BAR_WIDTH_def
        ETA_FORMAT_LENGTH_def WHITESPACE_LENGTH_def)
  have lw: "progressbar_label_width_int32 W labelLen (progressbar_bar_width W labelLen)
              = progressbar_label_width W labelLen (progressbar_bar_width W labelLen)"
    using assms b10 bup
    by (intro label_width_int32_exact) (auto simp: INT_MIN_def INT_MAX_def max_def split: if_splits)
  have "progressbar_label_width W labelLen (progressbar_bar_width W labelLen)
          + 1 + progressbar_bar_width W labelLen + 1 + 13 \<le> W"
    using assms(1)
    by (simp add: progressbar_label_width_def progressbar_bar_width_def progressbar_max_def
        MINIMUM_BAR_WIDTH_def ETA_FORMAT_LENGTH_def WHITESPACE_LENGTH_def Let_def)
  then show ?thesis
    unfolding bw lw .
qed

theorem layout_int32_fits_screen_witness:
  "(25::int) \<le> 25 \<and> (25::int) \<le> INT_MAX \<and> (0::int) \<le> 17 \<and> (17::int) \<le> INT_MAX - 25
   \<and> progressbar_label_width_int32 25 17 (progressbar_bar_width_int32 25 17)
       + 1 + progressbar_bar_width_int32 25 17 + 1 + 13 \<le> 25"
  using layout_int32_fits_screen [of 25 17] by (simp add: INT_MAX_def)

text \<open>
  C4 as stated fails: with 80 columns and a label of \<open>INT_MAX\<close> bytes the bar width is
  10, the sum \<open>label_length + 1\<close> in the test of \<open>progressbar_label_width\<close> overflows to
  a negative number, the label is kept whole, and the line is wider than the screen.
\<close>

theorem layout_int32_overflow:
  "progressbar_bar_width_int32 80 2147483647 = 10
   \<and> progressbar_label_width_int32 80 2147483647 (progressbar_bar_width_int32 80 2147483647)
       = 2147483647
   \<and> \<not> progressbar_label_width_int32 80 2147483647 (progressbar_bar_width_int32 80 2147483647)
         + 1 + progressbar_bar_width_int32 80 2147483647 + 1 + 13 \<le> 80"
  by (simp add: progressbar_bar_width_int32_def progressbar_label_width_int32_def
      progressbar_max_def MINIMUM_BAR_WIDTH_def ETA_FORMAT_LENGTH_def WHITESPACE_LENGTH_def
      int_sub_def int_add_def int_wrap_def Let_def)

text \<open>
  C7. For every total \<open>S \<ge> 0\<close> the decomposition returns hours, minutes and seconds
  with \<open>hours * 3600 + minutes * 60 + seconds = S\<close>, \<open>0 \<le> minutes < 60\<close> and
  \<open>0 \<le> seconds < 60\<close>; the hours are \<open>S div 3600\<close>, not reduced modulo a day, so they
  may exceed 99.
\<close>

theorem calc_time_components_decomposition:
  assumes "0 \<le> S"
  shows "hours (progressbar_calc_time_components S) * 3600
           + minutes (progressbar_calc_time_components S) * 60
           + seconds (progressbar_calc_time_components S) = S
         \<and> 0 \<le> minutes (progressbar_calc_time_components S)
         \<and> minutes (progressbar_calc_time_components S) < 60
         \<and> 0 \<le> seconds (progressbar_calc_time_components S)
         \<and> seconds (progressbar_calc_time_components S) < 60
         \<and> hours (progressbar_calc_time_components S) = S div 3600"
proof -
  have h: "c_div S 3600 = S div 3600"
    using assms by (simp add: c_div_nonneg)
  have r: "S - S div 3600 * 3600 = S mod 3600"
    by (simp add: minus_div_mult_eq_mod)
  have m: "c_div (S mod 3600) 60 = S mod 3600 div 60"
    by (simp add: c_div_nonneg)
  have s: "S mod 3600 - S mod 3600 div 60 * 60 = S mod 3600 mod 60"
    by (simp add: minus_div_mult_eq_mod)
  have bound: "S mod 3600 div 60 < 60"
    by (simp add: div_less_iff_less_mult)
  show ?thesis
    using bound
    by (simp add: progressbar_calc_time_components_def Let_def h r m s)
qed

theorem calc_time_components_decomposition_witness:
  "(0::int) \<le> 363725
   \<and> hours (progressbar_calc_time_components 363725) * 3600
       + minutes (progressbar_calc_time_components 363725) * 60
       + seconds (progressbar_calc_time_components 363725) = 363725
   \<and> minutes (progressbar_calc_time_components 363725) < 60
   \<and> seconds (progressbar_calc_time_components 363725) < 60
   \<and> hours (progressbar_calc_time_components 363725) = 101"
  using calc_time_components_decomposition [of 363725] by simp

section \<open>The filled-cell count and the floor of the exact ratio\<close>

text \<open>
  C1 (amended). For \<open>maximum > 0\<close>, \<open>0 \<le> current \<le> maximum\<close> and a bar width from 2 up
  to \<open>INT_MAX + 2\<close>, the filled-cell count is the double-precision product
  \<open>(barWidth - 2) * (current / maximum)\<close> truncated to an integer: it differs from
  \<open>floor ((barWidth - 2) * current / maximum)\<close> by at most 1, it is \<open>barWidth - 2\<close> when
  \<open>current = maximum\<close>, and for \<open>maximum < 2^53\<close> and \<open>barWidth > 2\<close> it is less than
  \<open>barWidth - 2\<close> when \<open>current < maximum\<close>.
\<close>

theorem fill_count_within_one:
  fixes bar :: "'w::len progressbar"
  assumes "bar_max bar \<noteq> 0" and "bar_value bar \<le> bar_max bar"
    and "2 \<le> barWidth" and "barWidth - 2 \<le> INT_MAX"
  shows "\<exists>f. draw_bar_piece_current (barWidth - BAR_BORDER_WIDTH) bar = Inr f
           \<and> \<bar>f - (barWidth - 2) * uint (bar_value bar) div uint (bar_max bar)\<bar> \<le> 1
           \<and> (bar_value bar = bar_max bar \<longrightarrow> f = barWidth - 2)
           \<and> (bar_value bar \<noteq> bar_max bar \<and> uint (bar_max bar) < 2 ^ 53 \<and> 2 < barWidth
                \<longrightarrow> f < barWidth - 2)"
proof (cases "progressbar_completed bar")
  case True
  then have eq: "bar_value bar = bar_max bar"
    using assms(2) by (simp add: progressbar_completed_def)
  have f: "draw_bar_piece_current (barWidth - 2) bar = Inr (barWidth - 2)"
    using True assms(3,4) by (intro fill_complete) auto
  have "0 < uint (bar_max bar)"
    using assms(1) by (simp add: word_neq_0_conv word_less_def)
  then have "(barWidth - 2) * uint (bar_max bar) div uint (bar_max bar) = barWidth - 2"
    by simp
  then show ?thesis using f eq by (simp add: BAR_BORDER_WIDTH_def)
next
  case False
  then have ne: "bar_value bar \<noteq> bar_max bar"
    by (auto simp: progressbar_completed_def)
  obtain p :: rat where p: "draw_bar_piece_current (barWidth - 2) bar = Inr \<lfloor>p\<rfloor>"
     "\<bar>p - of_int ((barWidth - 2) * uint (bar_value bar)) / of_int (uint (bar_max bar))\<bar> < 1 / 2"
    using fill_incomplete [OF False, of "barWidth - 2"] assms(3,4) by auto
  have "\<bar>\<lfloor>p\<rfloor> - \<lfloor>(of_int ((barWidth - 2) * uint (bar_value bar)) :: rat) / of_int (uint (bar_max bar))\<rfloor>\<bar> \<le> 1"
    using p(2) by (rule floor_close)
  then have near: "\<bar>\<lfloor>p\<rfloor> - (barWidth - 2) * uint (bar_value bar) div uint (bar_max bar)\<bar> \<le> 1"
    by (simp only: floor_divide_of_int_eq)
  have strict: "\<lfloor>p\<rfloor> < barWidth - 2" if mx: "uint (bar_max bar) < 2 ^ 53" and bw: "2 < barWidth"
  proof -
    have "0 < barWidth - 2" using bw by simp
    then obtain f where "draw_bar_piece_current (barWidth - 2) bar = Inr f" "f < barWidth - 2"
      using fill_incomplete_strict [OF False _ assms(4) mx] by blast
    then show ?thesis using p(1) by simp
  qed
  show ?thesis using p(1) ne near strict by (simp add: BAR_BORDER_WIDTH_def)
qed

theorem fill_count_within_one_witness:
  "bar_max example_bar \<noteq> 0 \<and> bar_value example_bar \<le> bar_max example_bar
   \<and> (2::int) \<le> 57 \<and> 57 - 2 \<le> INT_MAX
   \<and> (\<exists>f. draw_bar_piece_current (57 - BAR_BORDER_WIDTH) example_bar = Inr f
          \<and> \<bar>f - 15\<bar> \<le> 1 \<and> f < 55)
   \<and> bar_max (example_bar\<lparr>bar_value := 11\<rparr>) \<noteq> 0
   \<and> bar_value (example_bar\<lparr>bar_value := 11\<rparr>) \<le> bar_max (example_bar\<lparr>bar_value := 11\<rparr>)
   \<and> (\<exists>f. draw_bar_piece_current (57 - BAR_BORDER_WIDTH) (example_bar\<lparr>bar_value := 11\<rparr>) = Inr f
          \<and> f = 55)"
  using fill_count_within_one [of example_bar 57]
    fill_count_within_one [of "example_bar\<lparr>bar_value := 11\<rparr>" 57]
  by (simp add: example_bar_def INT_MAX_def)

text \<open>
  C1 as stated fails: on an 80-column terminal the bar labelled \<open>Progress\<close> is 57
  columns wide, and at 3 of 11 steps it shows 14 filled cells, although
  \<open>55 * 3 / 11 = 15\<close> exactly: the quotient \<open>3 / 11\<close> is rounded down to a double, the
  product with 55 is rounded to the double just below 15, and the conversion to
  \<open>int\<close> truncates.
\<close>

theorem fill_count_not_floor:
  "draw_bar_piece_current (57 - BAR_BORDER_WIDTH) example_bar = Inr 14
   \<and> (57 - 2) * uint (bar_value example_bar) div uint (bar_max example_bar) = 15"
  by code_simp

section \<open>The run lengths passed to the character writer\<close>

lemma get_screen_width_range: "1 \<le> get_screen_width e \<and> get_screen_width e \<le> 65535"
proof (cases "ioctl_ws_col e")
  case None
  then show ?thesis by (simp add: get_screen_width_def DEFAULT_SCREEN_WIDTH_def)
next
  case (Some ws_col)
  have "uint ws_col < 2 ^ 16" using uint_bounded [of ws_col] by simp
  moreover have "ws_col \<noteq> 0 \<Longrightarrow> 0 < uint ws_col"
    by (simp add: word_neq_0_conv word_less_def)
  ultimately show ?thesis
    using Some by (auto simp: get_screen_width_def DEFAULT_SCREEN_WIDTH_def)
qed

lemma bar_piece_count_range:
  "8 \<le> progressbar_bar_width (get_screen_width e) (int (length l)) - BAR_BORDER_WIDTH
   \<and> progressbar_bar_width (get_screen_width e) (int (length l)) - BAR_BORDER_WIDTH \<le> 65518"
  using get_screen_width_range [of e]
  by (simp add: progressbar_bar_width_def progressbar_max_def MINIMUM_BAR_WIDTH_def
      ETA_FORMAT_LENGTH_def WHITESPACE_LENGTH_def BAR_BORDER_WIDTH_def)




text \<open>
  C10 (amended). Incrementing is \<open>progressbar_update\<close> with \<open>current + 1\<close> modulo
  \<open>2 ^ LENGTH('w)\<close>, with no clamping: a bar whose current value is the largest
  \<open>unsigned long\<close> is complete, its value wraps to 0, and at the draw that the increment
  performs the bar is incomplete again provided \<open>maximum \<noteq> 0\<close>; with \<open>maximum = 0\<close> it
  stays complete.
\<close>

theorem inc_wraps_to_zero:
  fixes bar :: "'w::len progressbar"
  assumes "uint (bar_value bar) = 2 ^ LENGTH('w) - 1"
  shows "progressbar_completed bar
       \<and> progressbar_inc e bar io = progressbar_update e bar (bar_value bar + 1) io
       \<and> uint (bar_value (fst (progressbar_inc e bar io)))
           = (uint (bar_value bar) + 1) mod 2 ^ LENGTH('w)
       \<and> bar_value (fst (progressbar_inc e bar io)) = 0
       \<and> snd (progressbar_inc e bar io) = progressbar_draw e (fst (progressbar_inc e bar io)) io
       \<and> (bar_max bar \<noteq> 0 \<longrightarrow> \<not> progressbar_completed (fst (progressbar_inc e bar io)))
       \<and> (bar_max bar = 0 \<longrightarrow> progressbar_completed (fst (progressbar_inc e bar io)))"
proof -
  have "uint (bar_max bar) < 2 ^ LENGTH('w)" by (rule uint_bounded)
  then have c: "progressbar_completed bar"
    using assms by (simp add: progressbar_completed_def word_le_def)
  have "uint (bar_value bar + 1) = (uint (bar_value bar) + 1) mod 2 ^ LENGTH('w)"
    by (simp add: uint_word_arith_bintrs take_bit_eq_mod)
  then have u: "uint (bar_value bar + 1) = 0" using assms by simp
  then have z: "bar_value bar + 1 = 0" by (simp add: uint_0_iff)
  have nc: "\<not> progressbar_completed (bar\<lparr>bar_value := 0\<rparr>)" if "bar_max bar \<noteq> 0"
    using that by (simp add: progressbar_completed_def)
  have sc: "progressbar_completed (bar\<lparr>bar_value := 0\<rparr>)" if "bar_max bar = 0"
    using that by (simp add: progressbar_completed_def)
  show ?thesis
    using c u z nc sc assms
    by (simp add: progressbar_inc_def progressbar_update_def Let_def)
qed

theorem inc_wraps_to_zero_witness:
  "uint (bar_value (example_bar\<lparr>bar_value := 18446744073709551615\<rparr>)) = 2 ^ LENGTH(64) - 1
   \<and> progressbar_completed (example_bar\<lparr>bar_value := 18446744073709551615\<rparr>)
   \<and> bar_value (fst (progressbar_inc example_env
         (example_bar\<lparr>bar_value := 18446744073709551615\<rparr>) example_io)) = 0
   \<and> bar_max (example_bar\<lparr>bar_value := 18446744073709551615\<rparr>) \<noteq> 0
   \<and> \<not> progressbar_completed (fst (progressbar_inc example_env
         (example_bar\<lparr>bar_value := 18446744073709551615\<rparr>) example_io))"
proof -
  have h: "uint (bar_value (example_bar\<lparr>bar_value := 18446744073709551615\<rparr>)) = 2 ^ LENGTH(64) - 1"
    by simp
  have m: "bar_max (example_bar\<lparr>bar_value := 18446744073709551615\<rparr>) \<noteq> 0"
    by (simp add: example_bar_def)
  show ?thesis
    using inc_wraps_to_zero [OF h, of example_env example_io] h m by blast
qed

text \<open>
  C10 as stated fails for \<open>maximum = 0\<close>: the value wraps to 0, and \<open>0 \<ge> 0\<close> keeps the
  bar complete.
\<close>

theorem inc_at_max_stays_complete:
  "uint (bar_value (example_bar\<lparr>bar_max := 0, bar_value := 18446744073709551615\<rparr>))
     = 2 ^ LENGTH(64) - 1
   \<and> progressbar_completed (example_bar\<lparr>bar_max := 0, bar_value := 18446744073709551615\<rparr>)
   \<and> bar_value (fst (progressbar_inc example_env
         (example_bar\<lparr>bar_max := 0, bar_value := 18446744073709551615\<rparr>) example_io)) = 0
   \<and> progressbar_completed (fst (progressbar_inc example_env
         (example_bar\<lparr>bar_max := 0, bar_value := 18446744073709551615\<rparr>) example_io))"
  by (simp add: example_bar_def progressbar_completed_def progressbar_inc_def
      progressbar_update_def Let_def)

section \<open>The ETA seconds\<close>

lemma c_bind_Inr [simp]: "c_bind (Inr v) f = f v"
  by (simp add: c_bind_def)

lemma c_bind_Inl [simp]: "c_bind (Inl e) f = Inl e"
  by (simp add: c_bind_def)

lemma int_of_double_no_div: "int_of_double x \<noteq> Inl Division_By_Zero"
  by (simp add: int_of_double_def Let_def)

lemma double_round_nonpos: "x \<le> 0 \<Longrightarrow> double_round x \<le> 0"
  using double_round_nonneg [of "- x"] by (simp add: double_round_minus)

lemma difftime_pos_iff: "0 < difftime t1 t0 \<longleftrightarrow> t0 < t1"
proof
  assume "t0 < t1"
  then have "0 < (of_int (t1 - t0) :: rat)" by simp
  then show "0 < difftime t1 t0" unfolding difftime_def by (rule double_round_pos_pos)
next
  assume a: "0 < difftime t1 t0"
  show "t0 < t1"
  proof (rule ccontr)
    assume "\<not> t0 < t1"
    then have "(of_int (t1 - t0) :: rat) \<le> 0" by simp
    then have "difftime t1 t0 \<le> 0" unfolding difftime_def by (rule double_round_nonpos)
    then show False using a by simp
  qed
qed

lemma difftime_exact: "\<bar>t1 - t0\<bar> < 2 ^ 53 \<Longrightarrow> difftime t1 t0 = of_int (t1 - t0)"
  unfolding difftime_def by (rule double_round_of_int)

lemma c_trunc_of_int [simp]: "c_trunc (of_int k) = k"
  by (simp add: c_trunc_def)

lemma int_of_double_of_int:
  "INT_MIN \<le> k \<Longrightarrow> k \<le> INT_MAX \<Longrightarrow> int_of_double (of_int k) = Inr k"
  by (simp add: int_of_double_def)

lemma int_of_double_floor:
  assumes "0 \<le> x" "x < of_int INT_MAX + 1"
  shows "int_of_double x = Inr \<lfloor>x\<rfloor>"
proof -
  have "0 \<le> \<lfloor>x\<rfloor>" using assms(1) by simp
  moreover have "x < of_int (INT_MAX + 1)" using assms(2) by simp
  then have "\<lfloor>x\<rfloor> < INT_MAX + 1" by (simp only: floor_less_iff)
  ultimately show ?thesis
    using assms(1) by (simp add: int_of_double_def c_trunc_nonneg INT_MIN_def Let_def)
qed

text \<open>The guarded division of the remaining-time estimate never divides by zero.\<close>

lemma remaining_seconds_no_div:
  "progressbar_remaining_seconds e bar \<noteq> Inl Division_By_Zero"
proof (cases "bar_value bar > 0 \<and> difftime (time_now e) (start bar) > 0")
  case True
  then have "bar_value bar \<noteq> 0" by auto
  then have "double_of_ulong (bar_value bar) \<noteq> 0"
    using double_of_ulong_pos [of "bar_value bar"] by simp
  then show ?thesis
    using True by (simp add: progressbar_remaining_seconds_def Let_def double_div_def
        int_of_double_no_div)
next
  case False
  then show ?thesis by (auto simp: progressbar_remaining_seconds_def Let_def)
qed

lemma remaining_seconds_zero:
  assumes "bar_value bar = 0 \<or> time_now e \<le> start bar"
  shows "progressbar_remaining_seconds e bar = Inr 0"
  using assms difftime_pos_iff [of "time_now e" "start bar"]
  by (auto simp: progressbar_remaining_seconds_def Let_def)

lemma remaining_seconds_estimate:
  fixes bar :: "'w::len progressbar"
  assumes "bar_value bar \<noteq> 0" "start bar < time_now e"
    and "(time_now e - start bar) * uint (bar_max bar - bar_value bar)
           \<le> INT_MAX * uint (bar_value bar)"
  shows "\<exists>p::rat. progressbar_remaining_seconds e bar = Inr \<lfloor>p\<rfloor>
           \<and> \<bar>p - of_int ((time_now e - start bar) * uint (bar_max bar - bar_value bar))
                    / of_int (uint (bar_value bar))\<bar> < 1 / 2"
proof -
  define E :: rat where "E = of_int (time_now e - start bar)"
  define v :: rat where "v = of_int (uint (bar_value bar))"
  define d :: rat where "d = of_int (uint (bar_max bar - bar_value bar))"
  define offset where "offset = difftime (time_now e) (start bar)"
  define V where "V = double_of_ulong (bar_value bar)"
  define D where "D = double_of_ulong (bar_max bar - bar_value bar)"
  have E0: "0 < E" using assms(2) by (simp add: E_def)
  have "0 < uint (bar_value bar)"
    using assms(1) by (simp add: word_neq_0_conv word_less_def)
  then have v0: "0 < v" unfolding v_def by (rule of_int_pos)
  have d0: "0 \<le> d" unfolding d_def by (intro of_int_nonneg) simp
  have off0: "0 < offset" unfolding offset_def using assms(2) by (simp add: difftime_pos_iff)
  have V0: "0 < V" unfolding V_def using assms(1) by (rule double_of_ulong_pos)
  have D0: "0 \<le> D" unfolding D_def by (rule double_of_ulong_nonneg)
  have nE: "near 1 offset E"
    unfolding offset_def difftime_def E_def using assms(2) by (intro near_round) simp
  have nV: "near 1 V v" unfolding V_def v_def by (rule near_ulong)
  have nD: "near 1 D d" unfolding D_def d_def by (rule near_ulong)
  define q where "q = double_round (offset / V)"
  have q0: "0 \<le> q" unfolding q_def using off0 V0 by (intro double_round_nonneg) simp
  have "near (1 + 1) (offset / V) (E / v)" using nE nV v0 by (rule near_divide)
  moreover have "near 1 q (offset / V)"
    unfolding q_def using off0 V0 by (intro near_round) simp
  ultimately have "near (1 + 1 + 1) q (E / v)" by (rule near_trans)
  then have nqD: "near (1 + 1 + 1 + 1) (q * D) (E / v * d)" using nD by (rule near_mult)
  define p where "p = double_round (q * D)"
  have qD0: "0 \<le> q * D" using q0 D0 by simp
  have p0: "0 \<le> p" unfolding p_def using qD0 by (rule double_round_nonneg)
  have "near (1 + 1 + 1 + 1 + 1) p (E / v * d)"
    unfolding p_def using nqD by (rule near_trans) (intro near_round qD0)
  then have n5: "near 5 p (E / v * d)" by (rule near_mono) simp
  have "(of_int ((time_now e - start bar) * uint (bar_max bar - bar_value bar)) :: rat)
          \<le> of_int (INT_MAX * uint (bar_value bar))"
    using assms(3) by (simp only: of_int_le_iff)
  then have "E * d \<le> of_int INT_MAX * v" by (simp add: E_def d_def v_def)
  then have est: "E / v * d \<le> of_int INT_MAX" using v0 by (simp add: field_simps)
  then have "E / v * d \<le> 2 ^ 31" by (simp add: INT_MAX_def)
  then have close: "\<bar>p - E / v * d\<bar> < 1 / 2" by (rule near_5_close [OF n5])
  then have "p < of_int INT_MAX + 1" using est by linarith
  then have "int_of_double p = Inr \<lfloor>p\<rfloor>" using p0 by (intro int_of_double_floor)
  moreover have "double_div offset V = Inr q" using V0 by (simp add: double_div_def q_def)
  moreover have "0 < bar_value bar" using assms(1) by (simp add: word_neq_0_conv)
  ultimately have "progressbar_remaining_seconds e bar = Inr \<lfloor>p\<rfloor>"
    using off0
    by (simp add: progressbar_remaining_seconds_def Let_def double_mul_def
        offset_def [symmetric] V_def [symmetric] D_def [symmetric] p_def)
  moreover have "E / v * d
      = of_int ((time_now e - start bar) * uint (bar_max bar - bar_value bar))
          / of_int (uint (bar_value bar))"
    by (simp add: E_def v_def d_def)
  ultimately show ?thesis using close by auto
qed

lemma draw_eta_no_div: "draw_eta e bar \<noteq> Inl Division_By_Zero"
proof (cases "progressbar_completed bar")
  case True
  then show ?thesis
    using int_of_double_no_div [of "difftime (time_now e) (start bar)"]
    by (cases "int_of_double (difftime (time_now e) (start bar))") (auto simp: draw_eta_def)
next
  case False
  then show ?thesis
    using remaining_seconds_no_div [of e bar]
    by (cases "progressbar_remaining_seconds e bar") (auto simp: draw_eta_def)
qed

lemma draw_no_div: "progressbar_draw e bar io \<noteq> Inl Division_By_Zero"
proof -
  define n where
    "n = progressbar_bar_width (get_screen_width e) (int (length (label bar))) - BAR_BORDER_WIDTH"
  have n: "8 \<le> n" "n \<le> 65518"
    using bar_piece_count_range [of e "label bar"] by (simp_all add: n_def)
  obtain f where f: "draw_bar_piece_current n bar = Inr f"
    using bar_piece_current_bounds [of n bar] n by (auto simp: INT_MAX_def)
  show ?thesis
    using draw_eta_no_div [of e bar] f
    by (cases "draw_eta e bar") (auto simp: progressbar_draw_def Let_def n_def [symmetric])
qed

lemma calc_time_components_0:
  "progressbar_calc_time_components 0 = \<lparr> hours = 0, minutes = 0, seconds = 0 \<rparr>"
  by (simp add: progressbar_calc_time_components_def c_div_def)

text \<open>
  C6. No draw and no remaining-time computation divides by zero, whatever the state:
  the ratio is only computed for \<open>value < max\<close>, and the estimate only for
  \<open>value > 0\<close>. With \<open>maximum = 0\<close> every value of \<open>current\<close> makes the bar complete, so the
  draw fills all cells and reports the elapsed time.
\<close>

theorem no_division_by_zero:
  fixes bar :: "'w::len progressbar"
  shows "progressbar_draw e bar io \<noteq> Inl Division_By_Zero
       \<and> progressbar_remaining_seconds e bar \<noteq> Inl Division_By_Zero
       \<and> (bar_max bar = 0 \<longrightarrow>
            progressbar_completed bar
          \<and> draw_bar_piece_current
               (progressbar_bar_width (get_screen_width e) (int (length (label bar)))
                  - BAR_BORDER_WIDTH) bar
              = Inr (progressbar_bar_width (get_screen_width e) (int (length (label bar)))
                       - BAR_BORDER_WIDTH)
          \<and> draw_eta e bar
              = c_bind (int_of_double (difftime (time_now e) (start bar)))
                  (\<lambda>s. Inr (progressbar_calc_time_components s)))"
proof -
  have c: "progressbar_completed bar" if "bar_max bar = 0"
    using that by (simp add: progressbar_completed_def)
  have "8 \<le> progressbar_bar_width (get_screen_width e) (int (length (label bar))) - BAR_BORDER_WIDTH"
       "progressbar_bar_width (get_screen_width e) (int (length (label bar))) - BAR_BORDER_WIDTH \<le> 65518"
    using bar_piece_count_range [of e "label bar"] by simp_all
  then have f: "draw_bar_piece_current
               (progressbar_bar_width (get_screen_width e) (int (length (label bar)))
                  - BAR_BORDER_WIDTH) bar
              = Inr (progressbar_bar_width (get_screen_width e) (int (length (label bar)))
                       - BAR_BORDER_WIDTH)" if "bar_max bar = 0"
    using c [OF that] by (intro fill_complete) (auto simp: INT_MAX_def)
  have eta: "draw_eta e bar
              = c_bind (int_of_double (difftime (time_now e) (start bar)))
                  (\<lambda>s. Inr (progressbar_calc_time_components s))" if "bar_max bar = 0"
    using c [OF that] by (simp add: draw_eta_def)
  show ?thesis
    using draw_no_div [of e bar io] remaining_seconds_no_div [of e bar] c f eta by blast
qed

theorem no_division_by_zero_witness:
  "bar_max (example_bar\<lparr>bar_max := 0\<rparr>) = 0
   \<and> progressbar_completed (example_bar\<lparr>bar_max := 0\<rparr>)
   \<and> draw_bar_piece_current
        (progressbar_bar_width (get_screen_width example_env)
           (int (length (label (example_bar\<lparr>bar_max := 0\<rparr>)))) - BAR_BORDER_WIDTH)
        (example_bar\<lparr>bar_max := 0\<rparr>)
       = Inr (progressbar_bar_width (get_screen_width example_env)
           (int (length (label (example_bar\<lparr>bar_max := 0\<rparr>)))) - BAR_BORDER_WIDTH)
   \<and> progressbar_draw example_env (example_bar\<lparr>bar_max := 0\<rparr>) example_io
       \<noteq> Inl Division_By_Zero"
  using no_division_by_zero [of example_env "example_bar\<lparr>bar_max := 0\<rparr>" example_io]
  by simp

text \<open>
  C3 (amended). The seconds that a draw decomposes for the ETA field are: the elapsed
  time \<open>now - startTime\<close> when the bar is complete (for an elapsed time within the
  \<open>int\<close> range); otherwise, when \<open>current > 0\<close> and \<open>now > startTime\<close>, the estimate
  \<open>elapsed * (maximum - current) / current\<close> computed in double precision and
  truncated, which is within 1 of the floor of the exact quotient (for an estimate
  of at most \<open>INT_MAX\<close>); otherwise 0. No case divides by zero.
\<close>

theorem eta_value:
  fixes bar :: "'w::len progressbar"
  shows "(progressbar_completed bar \<and> \<bar>time_now e - start bar\<bar> \<le> INT_MAX
            \<longrightarrow> draw_eta e bar
                 = Inr (progressbar_calc_time_components (time_now e - start bar)))
       \<and> (\<not> progressbar_completed bar \<and> bar_value bar \<noteq> 0 \<and> start bar < time_now e
            \<and> (time_now e - start bar) * (uint (bar_max bar) - uint (bar_value bar))
                 \<le> INT_MAX * uint (bar_value bar)
            \<longrightarrow> (\<exists>s. draw_eta e bar = Inr (progressbar_calc_time_components s)
                   \<and> \<bar>s - (time_now e - start bar) * (uint (bar_max bar) - uint (bar_value bar))
                            div uint (bar_value bar)\<bar> \<le> 1))
       \<and> (\<not> progressbar_completed bar \<and> (bar_value bar = 0 \<or> time_now e \<le> start bar)
            \<longrightarrow> draw_eta e bar = Inr \<lparr> hours = 0, minutes = 0, seconds = 0 \<rparr>)
       \<and> draw_eta e bar \<noteq> Inl Division_By_Zero"
proof -
  have A: "draw_eta e bar = Inr (progressbar_calc_time_components (time_now e - start bar))"
    if c: "progressbar_completed bar" and r: "\<bar>time_now e - start bar\<bar> \<le> INT_MAX"
  proof -
    have "\<bar>time_now e - start bar\<bar> < 2 ^ 53" using r by (simp add: INT_MAX_def)
    then have "difftime (time_now e) (start bar) = of_int (time_now e - start bar)"
      by (rule difftime_exact)
    moreover have "int_of_double (of_int (time_now e - start bar)) = Inr (time_now e - start bar)"
      using r by (intro int_of_double_of_int) (auto simp: INT_MIN_def INT_MAX_def)
    ultimately show ?thesis using c by (simp add: draw_eta_def)
  qed
  have B: "\<exists>s. draw_eta e bar = Inr (progressbar_calc_time_components s)
             \<and> \<bar>s - (time_now e - start bar) * (uint (bar_max bar) - uint (bar_value bar))
                      div uint (bar_value bar)\<bar> \<le> 1"
    if c: "\<not> progressbar_completed bar" and v: "bar_value bar \<noteq> 0"
      and t: "start bar < time_now e"
      and r: "(time_now e - start bar) * (uint (bar_max bar) - uint (bar_value bar))
                 \<le> INT_MAX * uint (bar_value bar)"
  proof -
    have "bar_value bar \<le> bar_max bar"
      using c by (simp add: progressbar_completed_def)
    then have d: "uint (bar_max bar - bar_value bar) = uint (bar_max bar) - uint (bar_value bar)"
      by (simp add: uint_sub_if' word_le_def)
    obtain p :: rat where p: "progressbar_remaining_seconds e bar = Inr \<lfloor>p\<rfloor>"
      "\<bar>p - of_int ((time_now e - start bar) * uint (bar_max bar - bar_value bar))
                    / of_int (uint (bar_value bar))\<bar> < 1 / 2"
      using remaining_seconds_estimate [OF v t] r d by auto
    have "\<bar>\<lfloor>p\<rfloor> - \<lfloor>(of_int ((time_now e - start bar) * uint (bar_max bar - bar_value bar)) :: rat)
                    / of_int (uint (bar_value bar))\<rfloor>\<bar> \<le> 1"
      using p(2) by (rule floor_close)
    then have "\<bar>\<lfloor>p\<rfloor> - (time_now e - start bar) * uint (bar_max bar - bar_value bar)
                    div uint (bar_value bar)\<bar> \<le> 1"
      by (simp only: floor_divide_of_int_eq)
    then show ?thesis using p(1) c d by (auto simp: draw_eta_def)
  qed
  have C: "draw_eta e bar = Inr \<lparr> hours = 0, minutes = 0, seconds = 0 \<rparr>"
    if c: "\<not> progressbar_completed bar" and z: "bar_value bar = 0 \<or> time_now e \<le> start bar"
    using c remaining_seconds_zero [OF z] by (simp add: draw_eta_def calc_time_components_0)
  show ?thesis using A B C draw_eta_no_div [of e bar] by blast
qed

theorem eta_value_witness:
  "progressbar_completed (example_bar\<lparr>bar_value := 11\<rparr>)
   \<and> \<bar>time_now (example_env\<lparr>time_now := 3725\<rparr>) - start (example_bar\<lparr>bar_value := 11\<rparr>)\<bar> \<le> INT_MAX
   \<and> draw_eta (example_env\<lparr>time_now := 3725\<rparr>) (example_bar\<lparr>bar_value := 11\<rparr>)
       = Inr \<lparr> hours = 1, minutes = 2, seconds = 5 \<rparr>
   \<and> \<not> progressbar_completed example_bar \<and> bar_value example_bar \<noteq> 0
   \<and> start example_bar < time_now (example_env\<lparr>time_now := 49\<rparr>)
   \<and> (\<exists>s. draw_eta (example_env\<lparr>time_now := 49\<rparr>) example_bar
              = Inr (progressbar_calc_time_components s) \<and> \<bar>s - 130\<bar> \<le> 1)
   \<and> time_now example_env \<le> start example_bar
   \<and> draw_eta example_env example_bar = Inr \<lparr> hours = 0, minutes = 0, seconds = 0 \<rparr>"
  using eta_value [of "example_bar\<lparr>bar_value := 11\<rparr>" "example_env\<lparr>time_now := 3725\<rparr>"]
    eta_value [of example_bar "example_env\<lparr>time_now := 49\<rparr>"]
    eta_value [of example_bar example_env]
  by (simp add: example_bar_def example_env_def progressbar_completed_def INT_MAX_def
      progressbar_calc_time_components_def c_div_def)

text \<open>
  C3 as stated fails: after 49 seconds at 3 of 18 steps the exact estimate is
  \<open>49 * 15 / 3 = 245\<close> seconds (4m05s), but \<open>49 / 3.0\<close> is rounded down and the product
  with 15 comes out just below 245, so that the field shows 4m04s. And the conversion
  of an estimate beyond \<open>INT_MAX\<close> to \<open>int\<close> (1 of \<open>2^32\<close> steps after one second) is
  undefined in C.
\<close>

theorem eta_not_exact_estimate:
  "draw_eta (example_env\<lparr>time_now := 49\<rparr>) (example_bar\<lparr>bar_max := 18\<rparr>)
     = Inr \<lparr> hours = 0, minutes = 4, seconds = 4 \<rparr>
   \<and> (49 - 0) * (18 - 3) / (3::rat) = 245
   \<and> progressbar_calc_time_components 245 = \<lparr> hours = 0, minutes = 4, seconds = 5 \<rparr>
   \<and> draw_eta (example_env\<lparr>time_now := 1\<rparr>) (example_bar\<lparr>bar_value := 1, bar_max := 4294967296\<rparr>)
     = Inl Undefined_Conversion"
  by code_simp

section \<open>The bytes written by a draw\<close>

lemma write_char_loop_append:
  "write_char_loop n ch io = io\<lparr>stderr_buf := stderr_buf io @ replicate n ch\<rparr>"
proof (induction n arbitrary: io)
  case 0
  then show ?case by simp
next
  case (Suc n)
  then show ?case by (simp add: fputc_stderr_def replicate_app_Cons_same)
qed

lemma draw_appends_line:
  "progressbar_draw e bar io =
     c_bind (draw_bar_piece_current
               (progressbar_bar_width (get_screen_width e) (int (length (label bar)))
                  - BAR_BORDER_WIDTH) bar)
       (\<lambda>f. c_bind (draw_eta e bar)
          (\<lambda>eta. Inr (io\<lparr>stderr_buf := stderr_buf io @ draw_line e bar f eta\<rparr>)))"
  by (simp add: progressbar_draw_def Let_def draw_line_def draw_label_part_def
      draw_bar_part_def draw_label_width_def fputc_stderr_def fwrite_stderr_def
      fprintf_stderr_def progressbar_write_char_def write_char_loop_append
      cong: sum.case_cong)

text \<open>The label width never exceeds the label, so \<open>fwrite\<close> stays inside the string.\<close>

lemma draw_label_width_range:
  "0 \<le> draw_label_width e bar \<and> draw_label_width e bar \<le> int (length (label bar))"
  by (simp add: draw_label_width_def progressbar_label_width_def progressbar_bar_width_def
      progressbar_max_def MINIMUM_BAR_WIDTH_def ETA_FORMAT_LENGTH_def WHITESPACE_LENGTH_def
      Let_def)

lemma draw_eta_env:
  "time_now e' = time_now e \<Longrightarrow> draw_eta e' bar = draw_eta e bar"
  by (simp add: draw_eta_def progressbar_remaining_seconds_def)

lemma draw_line_env:
  "get_screen_width e' = get_screen_width e \<Longrightarrow> draw_line e' bar f eta = draw_line e bar f eta"
  by (simp add: draw_line_def draw_label_part_def draw_bar_part_def draw_label_width_def)




text \<open>
  C8 (amended). Two draws in succession of the same bar state append the identical
  line, provided that the terminal width and the clock reading are the same at both
  invocations.
\<close>

theorem draw_twice_same_line:
  fixes bar :: "'w::len progressbar"
  assumes "progressbar_draw e bar io = Inr io1"
    and "get_screen_width e' = get_screen_width e" and "time_now e' = time_now e"
  shows "\<exists>line. io1 = io\<lparr>stderr_buf := stderr_buf io @ line\<rparr>
           \<and> progressbar_draw e' bar io1 = Inr (io1\<lparr>stderr_buf := stderr_buf io1 @ line\<rparr>)"
proof -
  define n where
    "n = progressbar_bar_width (get_screen_width e) (int (length (label bar))) - BAR_BORDER_WIDTH"
  obtain f eta where f: "draw_bar_piece_current n bar = Inr f"
    and eta: "draw_eta e bar = Inr eta"
    and io1: "io1 = io\<lparr>stderr_buf := stderr_buf io @ draw_line e bar f eta\<rparr>"
    using assms(1) unfolding draw_appends_line n_def [symmetric]
    by (cases "draw_bar_piece_current n bar"; cases "draw_eta e bar") auto
  have "progressbar_draw e' bar io1
          = Inr (io1\<lparr>stderr_buf := stderr_buf io1 @ draw_line e bar f eta\<rparr>)"
    using f eta assms(2,3)
    by (simp add: draw_appends_line n_def [symmetric] draw_eta_env [of e' e]
        draw_line_env [of e' e])
  then show ?thesis using io1 by blast
qed

theorem draw_twice_same_line_witness:
  "progressbar_draw example_env example_bar example_io
     = Inr \<lparr> stdout_buf = [],
             stderr_buf = ''Progress |'' @ replicate 14 CHR ''='' @ replicate 41 CHR '' ''
                          @ ''| ETA: 0h00m00s'' @ [CHR 0x0D] \<rparr>
   \<and> get_screen_width example_env = get_screen_width example_env
   \<and> time_now example_env = time_now example_env
   \<and> (\<exists>line. progressbar_draw example_env example_bar
                 \<lparr> stdout_buf = [],
                   stderr_buf = ''Progress |'' @ replicate 14 CHR ''='' @ replicate 41 CHR '' ''
                          @ ''| ETA: 0h00m00s'' @ [CHR 0x0D] \<rparr>
              = Inr \<lparr> stdout_buf = [],
                      stderr_buf = (''Progress |'' @ replicate 14 CHR ''='' @ replicate 41 CHR '' ''
                          @ ''| ETA: 0h00m00s'' @ [CHR 0x0D]) @ line \<rparr>
            \<and> line = ''Progress |'' @ replicate 14 CHR ''='' @ replicate 41 CHR '' ''
                          @ ''| ETA: 0h00m00s'' @ [CHR 0x0D])"
proof -
  have h: "progressbar_draw example_env example_bar example_io
     = Inr \<lparr> stdout_buf = [],
             stderr_buf = ''Progress |'' @ replicate 14 CHR ''='' @ replicate 41 CHR '' ''
                          @ ''| ETA: 0h00m00s'' @ [CHR 0x0D] \<rparr>"
    by code_simp
  show ?thesis
    using h draw_twice_same_line [OF h refl refl]
    by (auto simp: example_io_def)
qed

text \<open>
  C8 as stated fails: a draw reads the clock, so two draws of the same completed bar
  differ when a second passes between them (\<open>0h00m00s\<close>, then \<open>0h00m01s\<close>).
\<close>

theorem draw_twice_clock_ticks:
  "progressbar_draw example_env (example_bar\<lparr>bar_value := 11\<rparr>) example_io
     = Inr \<lparr> stdout_buf = [],
             stderr_buf = ''Progress |'' @ replicate 55 CHR ''='' @ ''| ETA: 0h00m00s''
                          @ [CHR 0x0D] \<rparr>
   \<and> progressbar_draw (example_env\<lparr>time_now := 1\<rparr>) (example_bar\<lparr>bar_value := 11\<rparr>)
         \<lparr> stdout_buf = [],
           stderr_buf = ''Progress |'' @ replicate 55 CHR ''='' @ ''| ETA: 0h00m00s''
                          @ [CHR 0x0D] \<rparr>
     = Inr \<lparr> stdout_buf = [],
             stderr_buf = (''Progress |'' @ replicate 55 CHR ''='' @ ''| ETA: 0h00m00s''
                           @ [CHR 0x0D])
                          @ (''Progress |'' @ replicate 55 CHR ''='' @ ''| ETA: 0h00m01s''
                             @ [CHR 0x0D]) \<rparr>
   \<and> ''Progress |'' @ replicate 55 CHR ''='' @ ''| ETA: 0h00m00s'' @ [CHR 0x0D]
       \<noteq> ''Progress |'' @ replicate 55 CHR ''='' @ ''| ETA: 0h00m01s'' @ [CHR 0x0D]"
  by code_simp

end
